theory Spec2Isabelle
  imports Complex_Main "HOL-Library.Word" "HOL-Library.Log_Nat"
begin

section \<open>IEEE-754 binary32 values\<close>

text \<open>
  A C \<open>float\<close> on the WebAssembly target is an IEEE-754 binary32 value: one sign bit, an
  8-bit biased exponent field and a 23-bit fraction field.  Every combination of the three
  fields is a float, so the type has no junk.  Every arithmetic operation rounds its exact
  result once, to nearest with ties to even (the only rounding mode of WebAssembly).

  NaNs are produced as the SSE unit of x86-64 produces them, which is what both a native
  build and a WebAssembly engine on that hardware execute: an operation with a NaN
  operand returns that operand with its sign and payload, the quiet bit set (the left
  operand, if both are NaNs), and an invalid operation on other operands
  (\<open>infinity - infinity\<close>, \<open>0 * infinity\<close>, \<open>0 / 0\<close>, \<open>infinity / infinity\<close>, the
  square root of a negative number) returns the default NaN, whose sign bit is set and
  whose payload is empty.
\<close>

unbundle bit_operations_syntax

datatype f32 = F32 (sign: bool) (expo: "8 word") (frac: "23 word")

definition is_nan :: "f32 \<Rightarrow> bool" where
  "is_nan x = (expo x = 255 \<and> frac x \<noteq> 0)"

definition is_inf :: "f32 \<Rightarrow> bool" where
  "is_inf x = (expo x = 255 \<and> frac x = 0)"

definition is_zero :: "f32 \<Rightarrow> bool" where
  "is_zero x = (expo x = 0 \<and> frac x = 0)"

definition is_finite :: "f32 \<Rightarrow> bool" where
  "is_finite x = (expo x \<noteq> 255)"

definition pos_zero :: f32 where
  "pos_zero = F32 False 0 0"

definition neg_zero :: f32 where
  "neg_zero = F32 True 0 0"

definition f32_one :: f32 where
  "f32_one = F32 False 127 0"

definition infinity :: "bool \<Rightarrow> f32" where
  "infinity s = F32 s 255 0"

definition quiet_nan :: f32 where
  "quiet_nan = F32 True 255 4194304"

definition quieted :: "f32 \<Rightarrow> f32" where
  "quieted x = F32 (sign x) 255 (frac x OR 4194304)"

text \<open>
  A finite float is \<open>(-1)^sign * mant * 2^expn\<close>: the hidden bit is set unless the
  exponent field is 0 (zero and the subnormals, whose exponent is that of the smallest
  normal number).
\<close>

definition mant :: "f32 \<Rightarrow> nat" where
  "mant x = (if expo x = 0 then unat (frac x) else 8388608 + unat (frac x))"

definition expn :: "f32 \<Rightarrow> int" where
  "expn x = (if expo x = 0 then - 149 else int (unat (expo x)) - 150)"

definition valof :: "f32 \<Rightarrow> real" where
  "valof x = (if sign x then - 1 else 1) * real (mant x) * 2 powr real_of_int (expn x)"

text \<open>
  Rounding to the nearest integer, ties to even: \<open>nearest_even q r d\<close> rounds
  \<open>q + r / (2 * d)\<close> for \<open>r < 2 * d\<close>, and \<open>round_even M k\<close> rounds \<open>M / 2^k\<close>.
\<close>

definition nearest_even :: "nat \<Rightarrow> nat \<Rightarrow> nat \<Rightarrow> nat" where
  "nearest_even q r d =
     (if r < d then q else if d < r then q + 1 else if even q then q else q + 1)"

definition round_even :: "nat \<Rightarrow> nat \<Rightarrow> nat" where
  "round_even M k = nearest_even (M div 2 ^ k) (2 * (M mod 2 ^ k)) (2 ^ k)"

text \<open>
  \<open>fround s M E\<close> is the float nearest to \<open>(-1)^s * M * 2^E\<close>.  The significand keeps
  24 bits, or fewer where the exponent would fall below that of the subnormals
  (\<open>round_at\<close>); a significand rounded up to \<open>2^24\<close> moves to the next exponent
  (\<open>renorm\<close>); beyond the largest exponent the result is an infinity (\<open>pack\<close>).
\<close>

definition pack :: "bool \<Rightarrow> nat \<Rightarrow> int \<Rightarrow> f32" where
  "pack s m e =
     (if 104 < e then infinity s
      else if m < 8388608 then F32 s 0 (of_nat m)
      else F32 s (of_int (e + 150)) (of_nat (m - 8388608)))"

definition renorm :: "bool \<Rightarrow> nat \<Rightarrow> int \<Rightarrow> f32" where
  "renorm s m e = (if m = 16777216 then pack s 8388608 (e + 1) else pack s m e)"

definition round_at :: "bool \<Rightarrow> nat \<Rightarrow> int \<Rightarrow> int \<Rightarrow> f32" where
  "round_at s M E e =
     renorm s (if e \<le> E then M * 2 ^ nat (E - e) else round_even M (nat (e - E))) e"

definition fround :: "bool \<Rightarrow> nat \<Rightarrow> int \<Rightarrow> f32" where
  "fround s M E =
     (if M = 0 then F32 s 0 0
      else round_at s M E (max (E + int (floorlog 2 M) - 24) (- 149)))"

definition fneg :: "f32 \<Rightarrow> f32" where
  "fneg x = F32 (\<not> sign x) (expo x) (frac x)"

definition signed_mant :: "f32 \<Rightarrow> int" where
  "signed_mant x = (if sign x then - int (mant x) else int (mant x))"

text \<open>
  The exact sum of two finite floats is an integer multiple of \<open>2^e\<close> for the smaller
  exponent \<open>e\<close>.  An exact sum of zero is \<open>+0\<close>, unless both operands are \<open>-0\<close>.
\<close>

definition round_sum :: "int \<Rightarrow> int \<Rightarrow> bool \<Rightarrow> f32" where
  "round_sum v e both_negative =
     (if v = 0 then (if both_negative then neg_zero else pos_zero)
      else fround (v < 0) (nat \<bar>v\<bar>) e)"

definition add_at :: "f32 \<Rightarrow> f32 \<Rightarrow> int \<Rightarrow> f32" where
  "add_at x y e =
     round_sum (signed_mant x * 2 ^ nat (expn x - e) + signed_mant y * 2 ^ nat (expn y - e))
       e (sign x \<and> sign y)"

definition fadd :: "f32 \<Rightarrow> f32 \<Rightarrow> f32" where
  "fadd x y =
     (if is_nan x then quieted x
      else if is_nan y then quieted y
      else if is_inf x then (if is_inf y \<and> sign x \<noteq> sign y then quiet_nan else x)
      else if is_inf y then y
      else add_at x y (min (expn x) (expn y)))"

definition fsub :: "f32 \<Rightarrow> f32 \<Rightarrow> f32" where
  "fsub x y =
     (if is_nan x then quieted x
      else if is_nan y then quieted y
      else fadd x (fneg y))"

definition fmul :: "f32 \<Rightarrow> f32 \<Rightarrow> f32" where
  "fmul x y =
     (if is_nan x then quieted x
      else if is_nan y then quieted y
      else if is_inf x \<or> is_inf y then
        (if is_zero x \<or> is_zero y then quiet_nan else infinity (sign x \<noteq> sign y))
      else fround (sign x \<noteq> sign y) (mant x * mant y) (expn x + expn y))"

text \<open>
  The quotient and the square root are not binary fractions in general.  They are computed
  to far more than 24 bits, with one more bit at the end that records whether anything was
  cut off, so that rounding the approximation rounds the exact value.
\<close>

definition quot_sticky :: "nat \<Rightarrow> nat \<Rightarrow> nat" where
  "quot_sticky n d = 2 * (n div d) + (if n mod d = 0 then 0 else 1)"

definition fdiv :: "f32 \<Rightarrow> f32 \<Rightarrow> f32" where
  "fdiv x y =
     (if is_nan x then quieted x
      else if is_nan y then quieted y
      else if is_inf x then (if is_inf y then quiet_nan else infinity (sign x \<noteq> sign y))
      else if is_inf y then F32 (sign x \<noteq> sign y) 0 0
      else if is_zero y then (if is_zero x then quiet_nan else infinity (sign x \<noteq> sign y))
      else fround (sign x \<noteq> sign y) (quot_sticky (mant x * 2 ^ 64) (mant y))
             (expn x - expn y - 65))"

text \<open>
  The integer square root, found bit by bit from the top: \<open>isqrt_aux k n r\<close> decides
  the \<open>k\<close> low bits of the root, the bits above them being those of \<open>r\<close>.
\<close>

definition isqrt_step :: "nat \<Rightarrow> nat \<Rightarrow> nat \<Rightarrow> nat" where
  "isqrt_step k n r = (if (r + 2 ^ k) * (r + 2 ^ k) \<le> n then r + 2 ^ k else r)"

function isqrt_aux :: "nat \<Rightarrow> nat \<Rightarrow> nat \<Rightarrow> nat" where
  "isqrt_aux k n r =
     (if k = 0 then r else isqrt_aux (k - 1) n (isqrt_step (k - 1) n r))"
  by pat_completeness auto
termination
  by (relation "measure (\<lambda>(k, n, r). k)") auto

declare isqrt_aux.simps [simp del]

definition isqrt :: "nat \<Rightarrow> nat" where
  "isqrt n = isqrt_aux (floorlog 2 n) n 0"

definition root_sticky :: "nat \<Rightarrow> nat \<Rightarrow> nat" where
  "root_sticky n r = 2 * r + (if r * r = n then 0 else 1)"

definition sqrt_at :: "f32 \<Rightarrow> nat \<Rightarrow> f32" where
  "sqrt_at x k =
     fround False (root_sticky (mant x * 2 ^ k) (isqrt (mant x * 2 ^ k)))
       ((expn x - int k) div 2 - 1)"

definition fsqrt :: "f32 \<Rightarrow> f32" where
  "fsqrt x =
     (if is_nan x then quieted x
      else if is_zero x then x
      else if sign x then quiet_nan
      else if is_inf x then x
      else sqrt_at x (if even (expn x) then 64 else 65))"

text \<open>
  Comparison: a NaN compares false with everything; otherwise floats are ordered as their
  sign-and-magnitude bit patterns, the two zeros being equal.
\<close>

definition order_key :: "f32 \<Rightarrow> int" where
  "order_key x =
     (if sign x then - 1 else 1) * (int (unat (expo x)) * 8388608 + int (unat (frac x)))"

definition fgt :: "f32 \<Rightarrow> f32 \<Rightarrow> bool" where
  "fgt x y = (\<not> is_nan x \<and> \<not> is_nan y \<and> order_key y < order_key x)"

definition feq :: "f32 \<Rightarrow> f32 \<Rightarrow> bool" where
  "feq x y = (\<not> is_nan x \<and> \<not> is_nan y \<and> order_key x = order_key y)"


section \<open>Arithmetic, memory and loops\<close>

text \<open>
  The kernels are written once over the arithmetic of their element type, so that the same
  program text can be run on binary32 values and on exact real numbers.
\<close>

record 'f arith =
  f_zero :: 'f
  f_one :: 'f
  f_add :: "'f \<Rightarrow> 'f \<Rightarrow> 'f"
  f_sub :: "'f \<Rightarrow> 'f \<Rightarrow> 'f"
  f_mul :: "'f \<Rightarrow> 'f \<Rightarrow> 'f"
  f_div :: "'f \<Rightarrow> 'f \<Rightarrow> 'f"
  f_sqrt :: "'f \<Rightarrow> 'f"
  f_gt :: "'f \<Rightarrow> 'f \<Rightarrow> bool"

definition ieee :: "f32 arith" where
  "ieee = \<lparr>f_zero = pos_zero, f_one = f32_one, f_add = fadd, f_sub = fsub, f_mul = fmul,
            f_div = fdiv, f_sqrt = fsqrt, f_gt = fgt\<rparr>"

definition exact :: "real arith" where
  "exact = \<lparr>f_zero = 0, f_one = 1, f_add = (+), f_sub = (-), f_mul = (*),
             f_div = (/), f_sqrt = sqrt, f_gt = (\<lambda>x y. y < x)\<rparr>"

text \<open>
  Memory is a collection of caller-owned buffers, each a list of elements; a \<open>float*\<close>
  argument names the buffer it points to the start of.  An access outside the buffer is
  undefined behaviour in C, and so is the overflow of the \<open>int\<close> loop counter: both are
  errors of the model.
\<close>

datatype error = OutOfBounds | IntOverflow

type_synonym ptr = nat
type_synonym 'f heap = "ptr \<Rightarrow> 'f list"
type_synonym 'f v128 = "'f \<times> 'f \<times> 'f \<times> 'f"

definition INT_MAX :: int where
  "INT_MAX = 2147483647"

definition bind :: "error + 'a \<Rightarrow> ('a \<Rightarrow> error + 'b) \<Rightarrow> error + 'b" where
  "bind m k = (case m of Inl e \<Rightarrow> Inl e | Inr x \<Rightarrow> k x)"

definition load :: "'f heap \<Rightarrow> ptr \<Rightarrow> int \<Rightarrow> error + 'f" where
  "load h p i =
     (if 0 \<le> i \<and> i < int (length (h p)) then Inr (h p ! nat i) else Inl OutOfBounds)"

definition store :: "'f heap \<Rightarrow> ptr \<Rightarrow> int \<Rightarrow> 'f \<Rightarrow> error + 'f heap" where
  "store h p i x =
     (if 0 \<le> i \<and> i < int (length (h p)) then Inr (h(p := (h p)[nat i := x]))
      else Inl OutOfBounds)"

definition v128_load :: "'f heap \<Rightarrow> ptr \<Rightarrow> int \<Rightarrow> error + 'f v128" where
  "v128_load h p i =
     (if 0 \<le> i \<and> i + 3 < int (length (h p))
      then Inr (h p ! nat i, h p ! nat (i + 1), h p ! nat (i + 2), h p ! nat (i + 3))
      else Inl OutOfBounds)"

definition v128_store :: "'f heap \<Rightarrow> ptr \<Rightarrow> int \<Rightarrow> 'f v128 \<Rightarrow> error + 'f heap" where
  "v128_store h p i v =
     (case v of (x0, x1, x2, x3) \<Rightarrow>
        if 0 \<le> i \<and> i + 3 < int (length (h p))
        then Inr (h(p := (h p)[nat i := x0, nat (i + 1) := x1, nat (i + 2) := x2,
                               nat (i + 3) := x3]))
        else Inl OutOfBounds)"

definition f32x4_splat :: "'f \<Rightarrow> 'f v128" where
  "f32x4_splat x = (x, x, x, x)"

definition f32x4_add :: "'f arith \<Rightarrow> 'f v128 \<Rightarrow> 'f v128 \<Rightarrow> 'f v128" where
  "f32x4_add A u v =
     (case u of (u0, u1, u2, u3) \<Rightarrow> case v of (v0, v1, v2, v3) \<Rightarrow>
        (f_add A u0 v0, f_add A u1 v1, f_add A u2 v2, f_add A u3 v3))"

definition f32x4_sub :: "'f arith \<Rightarrow> 'f v128 \<Rightarrow> 'f v128 \<Rightarrow> 'f v128" where
  "f32x4_sub A u v =
     (case u of (u0, u1, u2, u3) \<Rightarrow> case v of (v0, v1, v2, v3) \<Rightarrow>
        (f_sub A u0 v0, f_sub A u1 v1, f_sub A u2 v2, f_sub A u3 v3))"

definition f32x4_mul :: "'f arith \<Rightarrow> 'f v128 \<Rightarrow> 'f v128 \<Rightarrow> 'f v128" where
  "f32x4_mul A u v =
     (case u of (u0, u1, u2, u3) \<Rightarrow> case v of (v0, v1, v2, v3) \<Rightarrow>
        (f_mul A u0 v0, f_mul A u1 v1, f_mul A u2 v2, f_mul A u3 v3))"

text \<open>
  The sum of the four extracted lanes, \<open>lane0 + lane1 + lane2 + lane3\<close>, which C
  associates to the left.
\<close>

definition lane_sum :: "'f arith \<Rightarrow> 'f v128 \<Rightarrow> 'f" where
  "lane_sum A v =
     (case v of (v0, v1, v2, v3) \<Rightarrow> f_add A (f_add A (f_add A v0 v1) v2) v3)"

text \<open>
  \<open>for (int i = i0; i < len; i += step) body\<close>, for a positive constant \<open>step\<close>.  The
  body may fail; the increment overflows when it leaves the range of \<open>int\<close>.
\<close>

function for_loop ::
  "int \<Rightarrow> int \<Rightarrow> int \<Rightarrow> (int \<Rightarrow> 's \<Rightarrow> error + 's) \<Rightarrow> 's \<Rightarrow> error + 's" where
  "for_loop step i len body s =
     (if i < len \<and> 0 < step then
        (case body i s of
           Inl e \<Rightarrow> Inl e
         | Inr s' \<Rightarrow>
             if INT_MAX < i + step then Inl IntOverflow
             else for_loop step (i + step) len body s')
      else Inr s)"
  by pat_completeness auto
termination
  by (relation "measure (\<lambda>(step, i, len, body, s). nat (len - i))") auto

declare for_loop.simps [simp del]

section \<open>The kernel of vector\_simd.c\<close>

text \<open>
  Each loop body is a function of the loop counter and of the state the loop changes: the
  memory and the accumulators (the variables \<open>sum\<close> and \<open>norm\<close> of the source are
  \<open>acc\<close> and \<open>nrm\<close> here).  The local variables that the claims speak about (the norm
  that \<open>normalize\<close> computes, the three sums of \<open>cosineSimilarity\<close> and the denominator
  of its division) are the results of functions of their own.
\<close>

definition euclidean_body_c ::
  "'f arith \<Rightarrow> ptr \<Rightarrow> ptr \<Rightarrow> int \<Rightarrow> 'f heap \<times> 'f v128 \<Rightarrow> error + 'f heap \<times> 'f v128" where
  "euclidean_body_c A a b i st =
     (case st of (h, acc) \<Rightarrow>
        bind (v128_load h a i) (\<lambda>va.
        bind (v128_load h b i) (\<lambda>vb.
          let diff = f32x4_sub A va vb
          in Inr (h, f32x4_add A acc (f32x4_mul A diff diff)))))"

definition euclideanDistance_c ::
  "'f arith \<Rightarrow> 'f heap \<Rightarrow> ptr \<Rightarrow> ptr \<Rightarrow> int \<Rightarrow> error + ('f \<times> 'f heap)" where
  "euclideanDistance_c A h a b len =
     bind (for_loop 4 0 len (euclidean_body_c A a b) (h, f32x4_splat (f_zero A)))
       (\<lambda>(h, acc).
          let final_sum = lane_sum A acc
          in Inr (f_sqrt A final_sum, h))"

definition cosine_body_c ::
  "'f arith \<Rightarrow> ptr \<Rightarrow> ptr \<Rightarrow> int \<Rightarrow> 'f heap \<times> 'f v128 \<times> 'f v128 \<times> 'f v128 \<Rightarrow>
     error + 'f heap \<times> 'f v128 \<times> 'f v128 \<times> 'f v128" where
  "cosine_body_c A a b i st =
     (case st of (h, dot, normA, normB) \<Rightarrow>
        bind (v128_load h a i) (\<lambda>va.
        bind (v128_load h b i) (\<lambda>vb.
          Inr (h, f32x4_add A dot (f32x4_mul A va vb),
                  f32x4_add A normA (f32x4_mul A va va),
                  f32x4_add A normB (f32x4_mul A vb vb)))))"

text \<open>The values of \<open>dotProduct\<close>, \<open>normASum\<close> and \<open>normBSum\<close> after the loop.\<close>

definition cosine_sums_c ::
  "'f arith \<Rightarrow> 'f heap \<Rightarrow> ptr \<Rightarrow> ptr \<Rightarrow> int \<Rightarrow> error + ('f heap \<times> 'f \<times> 'f \<times> 'f)" where
  "cosine_sums_c A h a b len =
     bind (for_loop 4 0 len (cosine_body_c A a b)
             (h, f32x4_splat (f_zero A), f32x4_splat (f_zero A), f32x4_splat (f_zero A)))
       (\<lambda>(h, dot, normA, normB).
          Inr (h, lane_sum A dot, lane_sum A normA, lane_sum A normB))"

text \<open>The denominator of the division that both kernels return.\<close>

definition cosine_denominator :: "'f arith \<Rightarrow> 'f \<Rightarrow> 'f \<Rightarrow> 'f" where
  "cosine_denominator A normASum normBSum = f_mul A (f_sqrt A normASum) (f_sqrt A normBSum)"

definition cosineSimilarity_c ::
  "'f arith \<Rightarrow> 'f heap \<Rightarrow> ptr \<Rightarrow> ptr \<Rightarrow> int \<Rightarrow> error + ('f \<times> 'f heap)" where
  "cosineSimilarity_c A h a b len =
     bind (cosine_sums_c A h a b len)
       (\<lambda>(h, dotProduct, normASum, normBSum).
          Inr (f_div A dotProduct (cosine_denominator A normASum normBSum), h))"

definition norm_body_c ::
  "'f arith \<Rightarrow> ptr \<Rightarrow> int \<Rightarrow> 'f heap \<times> 'f v128 \<Rightarrow> error + 'f heap \<times> 'f v128" where
  "norm_body_c A v i st =
     (case st of (h, acc) \<Rightarrow>
        bind (v128_load h v i) (\<lambda>vec.
          Inr (h, f32x4_add A acc (f32x4_mul A vec vec))))"

text \<open>The value of \<open>norm\<close> in \<open>normalize\<close>.\<close>

definition norm_c :: "'f arith \<Rightarrow> 'f heap \<Rightarrow> ptr \<Rightarrow> int \<Rightarrow> error + ('f heap \<times> 'f)" where
  "norm_c A h v len =
     bind (for_loop 4 0 len (norm_body_c A v) (h, f32x4_splat (f_zero A)))
       (\<lambda>(h, acc).
          let normSum = lane_sum A acc
          in Inr (h, f_sqrt A normSum))"

definition scale_body_c ::
  "'f arith \<Rightarrow> ptr \<Rightarrow> 'f v128 \<Rightarrow> int \<Rightarrow> 'f heap \<Rightarrow> error + 'f heap" where
  "scale_body_c A v normVec i h =
     bind (v128_load h v i) (\<lambda>vec.
       v128_store h v i (f32x4_mul A vec normVec))"

definition normalize_c :: "'f arith \<Rightarrow> 'f heap \<Rightarrow> ptr \<Rightarrow> int \<Rightarrow> error + 'f heap" where
  "normalize_c A h v len =
     bind (norm_c A h v len)
       (\<lambda>(h, nrm).
          let normVec = f32x4_splat (f_div A (f_one A) nrm)
          in for_loop 4 0 len (scale_body_c A v normVec) h)"

section \<open>The kernel of vector\_simd.cpp\<close>

text \<open>
  The \<open>omp simd\<close> pragmas permit a compiler to vectorise the loops; the program text is
  the scalar loop, which is what is modelled.
\<close>

definition euclidean_body_cpp ::
  "'f arith \<Rightarrow> ptr \<Rightarrow> ptr \<Rightarrow> int \<Rightarrow> 'f heap \<times> 'f \<Rightarrow> error + 'f heap \<times> 'f" where
  "euclidean_body_cpp A a b i st =
     (case st of (h, acc) \<Rightarrow>
        bind (load h a i) (\<lambda>x.
        bind (load h b i) (\<lambda>y.
          let diff = f_sub A x y
          in Inr (h, f_add A acc (f_mul A diff diff)))))"

definition euclideanDistance_cpp ::
  "'f arith \<Rightarrow> 'f heap \<Rightarrow> ptr \<Rightarrow> ptr \<Rightarrow> int \<Rightarrow> error + ('f \<times> 'f heap)" where
  "euclideanDistance_cpp A h a b len =
     bind (for_loop 1 0 len (euclidean_body_cpp A a b) (h, f_zero A))
       (\<lambda>(h, acc). Inr (f_sqrt A acc, h))"

definition cosine_body_cpp ::
  "'f arith \<Rightarrow> ptr \<Rightarrow> ptr \<Rightarrow> int \<Rightarrow> 'f heap \<times> 'f \<times> 'f \<times> 'f \<Rightarrow>
     error + 'f heap \<times> 'f \<times> 'f \<times> 'f" where
  "cosine_body_cpp A a b i st =
     (case st of (h, dot, normA, normB) \<Rightarrow>
        bind (load h a i) (\<lambda>x.
        bind (load h b i) (\<lambda>y.
          Inr (h, f_add A dot (f_mul A x y),
                  f_add A normA (f_mul A x x),
                  f_add A normB (f_mul A y y)))))"

definition cosine_sums_cpp ::
  "'f arith \<Rightarrow> 'f heap \<Rightarrow> ptr \<Rightarrow> ptr \<Rightarrow> int \<Rightarrow> error + ('f heap \<times> 'f \<times> 'f \<times> 'f)" where
  "cosine_sums_cpp A h a b len =
     for_loop 1 0 len (cosine_body_cpp A a b) (h, f_zero A, f_zero A, f_zero A)"

definition cosineSimilarity_cpp ::
  "'f arith \<Rightarrow> 'f heap \<Rightarrow> ptr \<Rightarrow> ptr \<Rightarrow> int \<Rightarrow> error + ('f \<times> 'f heap)" where
  "cosineSimilarity_cpp A h a b len =
     bind (cosine_sums_cpp A h a b len)
       (\<lambda>(h, dot, normA, normB).
          Inr (f_div A dot (cosine_denominator A normA normB), h))"

definition norm_body_cpp ::
  "'f arith \<Rightarrow> ptr \<Rightarrow> int \<Rightarrow> 'f heap \<times> 'f \<Rightarrow> error + 'f heap \<times> 'f" where
  "norm_body_cpp A v i st =
     (case st of (h, acc) \<Rightarrow>
        bind (load h v i) (\<lambda>x. Inr (h, f_add A acc (f_mul A x x))))"

definition norm_cpp :: "'f arith \<Rightarrow> 'f heap \<Rightarrow> ptr \<Rightarrow> int \<Rightarrow> error + ('f heap \<times> 'f)" where
  "norm_cpp A h v len =
     bind (for_loop 1 0 len (norm_body_cpp A v) (h, f_zero A))
       (\<lambda>(h, acc). Inr (h, f_sqrt A acc))"

definition scale_body_cpp ::
  "'f arith \<Rightarrow> ptr \<Rightarrow> 'f \<Rightarrow> int \<Rightarrow> 'f heap \<Rightarrow> error + 'f heap" where
  "scale_body_cpp A v nrm i h =
     bind (load h v i) (\<lambda>x. store h v i (f_div A x nrm))"

definition normalize_cpp :: "'f arith \<Rightarrow> 'f heap \<Rightarrow> ptr \<Rightarrow> int \<Rightarrow> error + 'f heap" where
  "normalize_cpp A h v len =
     bind (norm_cpp A h v len)
       (\<lambda>(h, nrm).
          if f_gt A nrm (f_zero A) then for_loop 1 0 len (scale_body_cpp A v nrm) h
          else Inr h)"

section \<open>Test values\<close>

text \<open>
  The conversion of a C \<open>int\<close> to \<open>float\<close>, which writes the small whole numbers of
  the test scenarios, and a memory that holds two buffers, at the pointers 0 and 1.
\<close>

definition f32_of_int :: "int \<Rightarrow> f32" where
  "f32_of_int n = fround (n < 0) (nat \<bar>n\<bar>) 0"

definition memory :: "'f list \<Rightarrow> 'f list \<Rightarrow> 'f heap" where
  "memory xs ys = (\<lambda>p. [])(0 := xs, 1 := ys)"

section \<open>Swapped arguments\<close>

text \<open>
  Two floats are the same result when they are the same float or are both NaNs (whose
  sign and payload depend on the order of the operands).  The loop states of
  \<open>cosineSimilarity\<close> on \<open>(a, b)\<close> and on \<open>(b, a)\<close> correspond when they agree on the
  memory, have the same dot product in this sense and have the two norm sums exchanged.
  Two calls have the same result when they signal the same error, or return the same
  memory and the same float in this sense.
\<close>

definition same_float :: "f32 \<Rightarrow> f32 \<Rightarrow> bool" where
  "same_float x y = (x = y \<or> (is_nan x \<and> is_nan y))"

definition same_lanes :: "f32 v128 \<Rightarrow> f32 v128 \<Rightarrow> bool" where
  "same_lanes u w =
     (case u of (u0, u1, u2, u3) \<Rightarrow> case w of (w0, w1, w2, w3) \<Rightarrow>
        same_float u0 w0 \<and> same_float u1 w1 \<and> same_float u2 w2 \<and> same_float u3 w3)"

definition swapped ::
  "('d \<Rightarrow> 'd \<Rightarrow> bool) \<Rightarrow> 'h \<times> 'd \<times> 'n \<times> 'n \<Rightarrow> 'h \<times> 'd \<times> 'n \<times> 'n \<Rightarrow> bool" where
  "swapped R st st' =
     (case st of (h, d, na, nb) \<Rightarrow> case st' of (h', d', na', nb') \<Rightarrow>
        h' = h \<and> R d d' \<and> na' = nb \<and> nb' = na)"

definition same_result :: "error + f32 \<times> f32 heap \<Rightarrow> error + f32 \<times> f32 heap \<Rightarrow> bool" where
  "same_result r r' =
     (case r of
        Inl e \<Rightarrow> r' = Inl e
      | Inr (x, h) \<Rightarrow> (case r' of Inl e \<Rightarrow> False | Inr (y, h') \<Rightarrow> same_float x y \<and> h' = h))"

section \<open>Values that are not negative\<close>

text \<open>A float that is a NaN, or has its sign bit clear.\<close>

definition not_negative :: "f32 \<Rightarrow> bool" where
  "not_negative x = (is_nan x \<or> \<not> sign x)"

section \<open>Zeros and NaNs\<close>

text \<open>The values that sums of products with zero can take.\<close>

definition zero_or_nan :: "f32 \<Rightarrow> bool" where
  "zero_or_nan x = (is_zero x \<or> is_nan x)"

section \<open>Closeness of real numbers, ranges and norms of vectors\<close>

text \<open>
  \<open>close_to eps x r\<close>: the number \<open>x\<close> is within the relative error \<open>eps\<close> of \<open>r\<close>.  A
  float is in the band \<open>b\<close> when it is finite and is zero or has a magnitude between
  \<open>1 / b\<close> and \<open>b\<close>.  The sum of squares and the L2 norm of a vector of floats are those
  of its values, in the real numbers.  \<open>lane_sq xs k m\<close> is the sum of the squares of the
  first \<open>m\<close> elements of lane \<open>k\<close>, and \<open>lane_ok xs k m s\<close> says that the lane accumulator
  \<open>s\<close> is a finite float with the sign bit clear, within \<open>2 * m + 1\<close> units of roundoff of
  it.
\<close>

definition close_to :: "real \<Rightarrow> real \<Rightarrow> real \<Rightarrow> bool" where
  "close_to eps x r = (\<bar>x - r\<bar> \<le> eps * \<bar>r\<bar>)"

definition in_band :: "real \<Rightarrow> f32 \<Rightarrow> bool" where
  "in_band b x = (is_finite x \<and> (valof x = 0 \<or> (1 / b \<le> \<bar>valof x\<bar> \<and> \<bar>valof x\<bar> \<le> b)))"

definition sq_sum :: "f32 list \<Rightarrow> real" where
  "sq_sum xs = (\<Sum>x\<leftarrow>xs. (valof x)\<^sup>2)"

definition l2_norm :: "f32 list \<Rightarrow> real" where
  "l2_norm xs = sqrt (sq_sum xs)"

definition lane_sq :: "f32 list \<Rightarrow> nat \<Rightarrow> nat \<Rightarrow> real" where
  "lane_sq xs k m = (\<Sum>i<m. (valof (xs ! (4 * i + k)))\<^sup>2)"

definition lane_ok :: "f32 list \<Rightarrow> nat \<Rightarrow> nat \<Rightarrow> f32 \<Rightarrow> bool" where
  "lane_ok xs k m s \<longleftrightarrow>
     is_finite s \<and> \<not> sign s \<and>
     \<bar>valof s - lane_sq xs k m\<bar> \<le> (2 * real m + 1) * (1 / 2 ^ 24) * lane_sq xs k m"

text \<open>
  \<open>scaled_by_norm xs ws\<close>: the vector \<open>ws\<close> holds, element by element, finite floats within
  \<open>76\<close> units of roundoff of the elements of \<open>xs\<close> divided by the norm of \<open>xs\<close>.
\<close>

definition scaled_by_norm :: "f32 list \<Rightarrow> f32 list \<Rightarrow> bool" where
  "scaled_by_norm xs ws \<longleftrightarrow>
     length ws = length xs \<and>
     (\<forall>i < length xs. is_finite (ws ! i) \<and>
        close_to (76 / 2 ^ 24) (valof (ws ! i)) (valof (xs ! i) / l2_norm xs))"

section \<open>Evaluation rules\<close>

text \<open>
  The arithmetic is evaluated by rewriting with its definitions.  The rules for the
  operations apply to floats given by their three fields only, so that they never unfold
  on a variable.
\<close>

lemmas fadd_F32 = fadd_def [of "F32 s e f" "F32 s' e' f'"] for s e f s' e' f'
lemmas fsub_F32 = fsub_def [of "F32 s e f" "F32 s' e' f'"] for s e f s' e' f'
lemmas fmul_F32 = fmul_def [of "F32 s e f" "F32 s' e' f'"] for s e f s' e' f'
lemmas fdiv_F32 = fdiv_def [of "F32 s e f" "F32 s' e' f'"] for s e f s' e' f'
lemmas fgt_F32 = fgt_def [of "F32 s e f" "F32 s' e' f'"] for s e f s' e' f'
lemmas feq_F32 = feq_def [of "F32 s e f" "F32 s' e' f'"] for s e f s' e' f'
lemmas fsqrt_F32 = fsqrt_def [of "F32 s e f"] for s e f

lemmas f32_eval =
  fadd_F32 fsub_F32 fmul_F32 fdiv_F32 fsqrt_F32 fgt_F32 feq_F32 fneg_def order_key_def
  is_nan_def is_inf_def is_zero_def is_finite_def mant_def expn_def signed_mant_def
  pos_zero_def neg_zero_def f32_one_def infinity_def quiet_nan_def quieted_def
  nearest_even_def round_even_def pack_def renorm_def round_at_def fround_def
  round_sum_def add_at_def quot_sticky_def
  isqrt_step_def isqrt_aux.simps isqrt_def root_sticky_def sqrt_at_def compute_floorlog

lemma ieee_sel [simp]:
  "f_zero ieee = pos_zero" "f_one ieee = f32_one" "f_add ieee = fadd" "f_sub ieee = fsub"
  "f_mul ieee = fmul" "f_div ieee = fdiv" "f_sqrt ieee = fsqrt" "f_gt ieee = fgt"
  by (simp_all add: ieee_def)

lemma exact_sel [simp]:
  "f_zero exact = 0" "f_one exact = 1" "f_add exact = (+)" "f_sub exact = (-)"
  "f_mul exact = (*)" "f_div exact = (/)" "f_sqrt exact = sqrt" "f_gt exact = (\<lambda>x y. y < x)"
  by (simp_all add: exact_def)

lemmas kernel_eval =
  for_loop.simps bind_def Let_def load_def store_def v128_load_def v128_store_def
  f32x4_splat_def f32x4_add_def f32x4_sub_def f32x4_mul_def lane_sum_def INT_MAX_def
  euclidean_body_c_def euclideanDistance_c_def cosine_body_c_def cosine_sums_c_def
  cosine_denominator_def cosineSimilarity_c_def norm_body_c_def norm_c_def
  scale_body_c_def normalize_c_def
  euclidean_body_cpp_def euclideanDistance_cpp_def cosine_body_cpp_def cosine_sums_cpp_def
  cosineSimilarity_cpp_def norm_body_cpp_def norm_cpp_def scale_body_cpp_def
  normalize_cpp_def

lemma zero_arith:
  "fadd pos_zero pos_zero = pos_zero" "fmul pos_zero pos_zero = pos_zero"
  "fsqrt pos_zero = pos_zero" "fdiv pos_zero pos_zero = quiet_nan"
  "fdiv f32_one pos_zero = infinity False" "\<not> fgt pos_zero pos_zero"
  "fmul pos_zero (infinity False) = quiet_nan"
  by (simp_all add: f32_eval)

lemma nan_not_finite: "is_nan quiet_nan" "\<not> is_finite quiet_nan" "\<not> is_inf quiet_nan"
  by (simp_all add: f32_eval)

lemma is_nan_quieted [simp]: "is_nan (quieted x)"
  by (simp add: quieted_def is_nan_def or_eq_0_iff)

lemma nan_operand:
  "is_nan x \<Longrightarrow> is_nan (fadd x y)" "is_nan y \<Longrightarrow> is_nan (fadd x y)"
  "is_nan x \<Longrightarrow> is_nan (fsub x y)" "is_nan y \<Longrightarrow> is_nan (fsub x y)"
  "is_nan x \<Longrightarrow> is_nan (fmul x y)" "is_nan y \<Longrightarrow> is_nan (fmul x y)"
  "is_nan x \<Longrightarrow> is_nan (fdiv x y)" "is_nan y \<Longrightarrow> is_nan (fdiv x y)"
  "is_nan x \<Longrightarrow> is_nan (fsqrt x)"
  by (simp_all add: fadd_def fsub_def fmul_def fdiv_def fsqrt_def)

section \<open>Loop rules\<close>

text \<open>
  A loop that has reached its bound returns its state; an iteration whose body succeeds
  moves on to the next counter value; an iteration whose body fails ends the loop.
\<close>

lemma for_loop_done: "len \<le> i \<Longrightarrow> for_loop step i len body s = Inr s"
  by (simp add: for_loop.simps)

lemma for_loop_step:
  "i < len \<Longrightarrow> 0 < step \<Longrightarrow> body i s = Inr s' \<Longrightarrow> i + step \<le> INT_MAX \<Longrightarrow>
     for_loop step i len body s = for_loop step (i + step) len body s'"
  by (subst for_loop.simps) simp

lemma for_loop_fail:
  "i < len \<Longrightarrow> 0 < step \<Longrightarrow> body i s = Inl e \<Longrightarrow> for_loop step i len body s = Inl e"
  by (subst for_loop.simps) simp

lemma for_loop_inv:
  assumes "for_loop step i len body s = Inr t" and "I s"
    and "\<And>j u u'. I u \<Longrightarrow> body j u = Inr u' \<Longrightarrow> I u'"
  shows "I t"
  using assms(1,2)
proof (induction "nat (len - i)" arbitrary: i s rule: less_induct)
  case less
  show ?case
  proof (cases "i < len \<and> 0 < step")
    case True
    from less.prems(1) True obtain s' where b: "body i s = Inr s'"
      and r: "for_loop step (i + step) len body s' = Inr t"
      by (subst (asm) for_loop.simps) (auto split: sum.splits if_splits)
    have "I s'" using assms(3) less.prems(2) b by blast
    moreover have "nat (len - (i + step)) < nat (len - i)" using True by linarith
    ultimately show ?thesis using less.hyps r by blast
  next
    case False
    then have "for_loop step i len body s = Inr s" by (subst for_loop.simps) auto
    then show ?thesis using less.prems by simp
  qed
qed

lemma for_loop_total_from:
  assumes "0 < step" and "len \<le> INT_MAX"
    and "\<And>j u. i0 \<le> j \<Longrightarrow> j < len \<Longrightarrow> (len - j) mod step = 0 \<Longrightarrow> I j u \<Longrightarrow>
           \<exists>u'. body j u = Inr u' \<and> I (j + step) u'"
  shows "i0 \<le> i \<Longrightarrow> i \<le> len \<Longrightarrow> (len - i) mod step = 0 \<Longrightarrow> I i s \<Longrightarrow>
           \<exists>t. for_loop step i len body s = Inr t \<and> I len t"
proof (induction "nat (len - i)" arbitrary: i s rule: less_induct)
  case less
  show ?case
  proof (cases "i < len")
    case True
    have "\<exists>u'. body i s = Inr u' \<and> I (i + step) u'"
      using assms(3)[of i s] True less.prems by simp
    then obtain s' where b: "body i s = Inr s'" and I': "I (i + step) s'" by blast
    have dv: "step dvd (len - i)" using less.prems(3) by (simp add: dvd_eq_mod_eq_0)
    have "step \<le> len - i" using dv True assms(1) by (intro zdvd_imp_le) simp_all
    then have le: "i + step \<le> len" by linarith
    have "step dvd (len - i) - step" using dv by (rule dvd_diff) simp
    then have m: "(len - (i + step)) mod step = 0"
      by (simp add: dvd_eq_mod_eq_0 algebra_simps)
    have lt: "nat (len - (i + step)) < nat (len - i)" using True assms(1) by linarith
    have i0: "i0 \<le> i + step" using less.prems(1) assms(1) by linarith
    have "\<exists>t. for_loop step (i + step) len body s' = Inr t \<and> I len t"
      by (rule less.hyps[OF lt i0 le m I'])
    moreover have "for_loop step i len body s = for_loop step (i + step) len body s'"
      using True assms(1,2) b le by (intro for_loop_step) simp_all
    ultimately show ?thesis by simp
  next
    case False
    then have "i = len" using less.prems(2) by simp
    then show ?thesis using less.prems(4) by (simp add: for_loop_done)
  qed
qed

lemma for_loop_total:
  assumes "0 < step" and "i \<le> len" and "(len - i) mod step = 0" and "len \<le> INT_MAX"
    and "I i s"
    and "\<And>j u. i \<le> j \<Longrightarrow> j < len \<Longrightarrow> (len - j) mod step = 0 \<Longrightarrow> I j u \<Longrightarrow>
           \<exists>u'. body j u = Inr u' \<and> I (j + step) u'"
  shows "\<exists>t. for_loop step i len body s = Inr t \<and> I len t"
  by (rule for_loop_total_from[OF assms(1,4,6) order_refl assms(2,3,5)])

lemma for_loop_rel:
  assumes "R s t"
    and "\<And>j u w. R u w \<Longrightarrow> rel_sum (=) R (body1 j u) (body2 j w)"
  shows "rel_sum (=) R (for_loop step i len body1 s) (for_loop step i len body2 t)"
  using assms(1)
proof (induction "nat (len - i)" arbitrary: i s t rule: less_induct)
  case less
  show ?case
  proof (cases "i < len \<and> 0 < step")
    case True
    have rb: "rel_sum (=) R (body1 i s) (body2 i t)" using assms(2) less.prems by blast
    show ?thesis
    proof (cases "body1 i s")
      case (Inl e)
      then have "body2 i t = Inl e" using rb by (cases "body2 i t") auto
      then show ?thesis using Inl True
        by (subst for_loop.simps, subst (2) for_loop.simps) simp
    next
      case (Inr s')
      then obtain t' where t': "body2 i t = Inr t'" and R': "R s' t'"
        using rb by (cases "body2 i t") auto
      have "nat (len - (i + step)) < nat (len - i)" using True by linarith
      then have "rel_sum (=) R (for_loop step (i + step) len body1 s')
                   (for_loop step (i + step) len body2 t')"
        using less.hyps R' by blast
      then show ?thesis using Inr t' True
        by (subst for_loop.simps, subst (2) for_loop.simps) simp
    qed
  next
    case False
    then show ?thesis using less.prems
      by (subst for_loop.simps, subst (2) for_loop.simps) auto
  qed
qed

section \<open>Memory effects\<close>

text \<open>
  When a load, a store or a sequence of two steps succeeds, and when it fails.
\<close>

lemma v128_load_Inr:
  "v128_load h p i = Inr v \<longleftrightarrow>
     0 \<le> i \<and> i + 3 < int (length (h p)) \<and>
     v = (h p ! nat i, h p ! nat (i + 1), h p ! nat (i + 2), h p ! nat (i + 3))"
  by (auto simp: v128_load_def)

lemma v128_load_Inl:
  "v128_load h p i = Inl e \<longleftrightarrow> \<not> (0 \<le> i \<and> i + 3 < int (length (h p))) \<and> e = OutOfBounds"
  by (auto simp: v128_load_def)

lemma load_Inr: "load h p i = Inr x \<longleftrightarrow> 0 \<le> i \<and> i < int (length (h p)) \<and> x = h p ! nat i"
  by (auto simp: load_def)

lemma load_Inl: "load h p i = Inl e \<longleftrightarrow> \<not> (0 \<le> i \<and> i < int (length (h p))) \<and> e = OutOfBounds"
  by (auto simp: load_def)

lemma bind_Inr: "bind m k = Inr y \<longleftrightarrow> (\<exists>x. m = Inr x \<and> k x = Inr y)"
  by (cases m) (simp_all add: bind_def)

lemma bind_Inl: "bind m k = Inl e \<longleftrightarrow> m = Inl e \<or> (\<exists>x. m = Inr x \<and> k x = Inl e)"
  by (cases m) (simp_all add: bind_def)

lemma euclidean_body_c_heap:
  "euclidean_body_c A a b i st = Inr st' \<Longrightarrow> fst st' = fst st"
  by (cases st) (auto simp: euclidean_body_c_def bind_Inr Let_def)

lemma cosine_body_c_heap:
  "cosine_body_c A a b i st = Inr st' \<Longrightarrow> fst st' = fst st"
  by (cases st) (auto simp: cosine_body_c_def bind_Inr)

lemma norm_body_c_heap:
  "norm_body_c A v i st = Inr st' \<Longrightarrow> fst st' = fst st"
  by (cases st) (auto simp: norm_body_c_def bind_Inr)

lemma euclidean_body_cpp_heap:
  "euclidean_body_cpp A a b i st = Inr st' \<Longrightarrow> fst st' = fst st"
  by (cases st) (auto simp: euclidean_body_cpp_def bind_Inr Let_def)

lemma cosine_body_cpp_heap:
  "cosine_body_cpp A a b i st = Inr st' \<Longrightarrow> fst st' = fst st"
  by (cases st) (auto simp: cosine_body_cpp_def bind_Inr)

lemma norm_body_cpp_heap:
  "norm_body_cpp A v i st = Inr st' \<Longrightarrow> fst st' = fst st"
  by (cases st) (auto simp: norm_body_cpp_def bind_Inr)

lemma scale_body_c_frame:
  "scale_body_c A v nv i h = Inr h' \<Longrightarrow> p \<noteq> v \<Longrightarrow> h' p = h p"
  by (cases nv) (auto simp: scale_body_c_def bind_Inr v128_store_def f32x4_mul_def
      split: prod.splits if_splits)

lemma scale_body_cpp_frame:
  "scale_body_cpp A v nrm i h = Inr h' \<Longrightarrow> p \<noteq> v \<Longrightarrow> h' p = h p"
  by (auto simp: scale_body_cpp_def bind_Inr store_def split: if_splits)

lemma euclideanDistance_c_heap:
  assumes "euclideanDistance_c A h a b len = Inr (r, h')" shows "h' = h"
proof -
  from assms obtain st where l: "for_loop 4 0 len (euclidean_body_c A a b) (h, f32x4_splat (f_zero A)) = Inr st"
    and h': "h' = fst st"
    by (auto simp: euclideanDistance_c_def bind_Inr Let_def)
  have "fst st = h"
    by (rule for_loop_inv[OF l, where I = "\<lambda>st. fst st = h"])
       (auto dest: euclidean_body_c_heap)
  then show ?thesis using h' by simp
qed

lemma euclideanDistance_cpp_heap:
  assumes "euclideanDistance_cpp A h a b len = Inr (r, h')" shows "h' = h"
proof -
  from assms obtain st where l: "for_loop 1 0 len (euclidean_body_cpp A a b) (h, f_zero A) = Inr st"
    and h': "h' = fst st"
    by (auto simp: euclideanDistance_cpp_def bind_Inr)
  have "fst st = h"
    by (rule for_loop_inv[OF l, where I = "\<lambda>st. fst st = h"])
       (auto dest: euclidean_body_cpp_heap)
  then show ?thesis using h' by simp
qed

lemma cosine_sums_c_heap:
  assumes "cosine_sums_c A h a b len = Inr st'" shows "fst st' = h"
proof -
  from assms obtain st where l: "for_loop 4 0 len (cosine_body_c A a b)
      (h, f32x4_splat (f_zero A), f32x4_splat (f_zero A), f32x4_splat (f_zero A)) = Inr st"
    and h': "fst st' = fst st"
    by (auto simp: cosine_sums_c_def bind_Inr)
  have "fst st = h"
    by (rule for_loop_inv[OF l, where I = "\<lambda>st. fst st = h"])
       (auto dest: cosine_body_c_heap)
  then show ?thesis using h' by simp
qed

lemma cosine_sums_cpp_heap:
  assumes "cosine_sums_cpp A h a b len = Inr st'" shows "fst st' = h"
  by (rule for_loop_inv[OF assms[unfolded cosine_sums_cpp_def], where I = "\<lambda>st. fst st = h"])
     (auto dest: cosine_body_cpp_heap)

lemma cosineSimilarity_c_heap:
  assumes "cosineSimilarity_c A h a b len = Inr (r, h')" shows "h' = h"
  using assms by (auto simp: cosineSimilarity_c_def bind_Inr dest: cosine_sums_c_heap)

lemma cosineSimilarity_cpp_heap:
  assumes "cosineSimilarity_cpp A h a b len = Inr (r, h')" shows "h' = h"
  using assms by (auto simp: cosineSimilarity_cpp_def bind_Inr dest: cosine_sums_cpp_heap)

lemma norm_c_heap:
  assumes "norm_c A h v len = Inr (h', n)" shows "h' = h"
proof -
  from assms obtain st where l: "for_loop 4 0 len (norm_body_c A v) (h, f32x4_splat (f_zero A)) = Inr st"
    and h': "h' = fst st"
    by (auto simp: norm_c_def bind_Inr Let_def)
  have "fst st = h"
    by (rule for_loop_inv[OF l, where I = "\<lambda>st. fst st = h"]) (auto dest: norm_body_c_heap)
  then show ?thesis using h' by simp
qed

lemma norm_cpp_heap:
  assumes "norm_cpp A h v len = Inr (h', n)" shows "h' = h"
proof -
  from assms obtain st where l: "for_loop 1 0 len (norm_body_cpp A v) (h, f_zero A) = Inr st"
    and h': "h' = fst st"
    by (auto simp: norm_cpp_def bind_Inr)
  have "fst st = h"
    by (rule for_loop_inv[OF l, where I = "\<lambda>st. fst st = h"]) (auto dest: norm_body_cpp_heap)
  then show ?thesis using h' by simp
qed

lemma normalize_c_frame:
  assumes "normalize_c A h v len = Inr h'" and "p \<noteq> v" shows "h' p = h p"
proof -
  from assms(1) obtain h1 n where n: "norm_c A h v len = Inr (h1, n)"
    and l: "for_loop 4 0 len (scale_body_c A v (f32x4_splat (f_div A (f_one A) n))) h1 = Inr h'"
    by (auto simp: normalize_c_def bind_Inr Let_def)
  have "h1 = h" using n by (rule norm_c_heap)
  moreover have "h' p = h1 p"
    by (rule for_loop_inv[OF l, where I = "\<lambda>u. u p = h1 p"])
       (auto dest: scale_body_c_frame[OF _ assms(2)])
  ultimately show ?thesis by simp
qed

lemma normalize_cpp_frame:
  assumes "normalize_cpp A h v len = Inr h'" and "p \<noteq> v" shows "h' p = h p"
proof -
  from assms(1) obtain h1 n where n: "norm_cpp A h v len = Inr (h1, n)"
    and l: "(if f_gt A n (f_zero A) then for_loop 1 0 len (scale_body_cpp A v n) h1 else Inr h1) = Inr h'"
    by (auto simp: normalize_cpp_def bind_Inr)
  have h1: "h1 = h" using n by (rule norm_cpp_heap)
  show ?thesis
  proof (cases "f_gt A n (f_zero A)")
    case True
    then have l': "for_loop 1 0 len (scale_body_cpp A v n) h1 = Inr h'" using l by simp
    have "h' p = h1 p"
      by (rule for_loop_inv[OF l', where I = "\<lambda>u. u p = h1 p"])
         (auto dest: scale_body_cpp_frame[OF _ assms(2)])
    then show ?thesis using h1 by simp
  next
    case False
    then show ?thesis using l h1 by simp
  qed
qed

section \<open>Worked scenarios\<close>

text \<open>
  The two scenarios of the specification, evaluated in both kernels: the unit vectors
  \<open>[1,0,0,0]\<close> and \<open>[0,1,0,0]\<close>, and the vector \<open>[3,4,0,0]\<close>.
\<close>

lemma f32_of_int_values:
  "f32_of_int 0 = pos_zero" "f32_of_int 1 = f32_one"
  "f32_of_int 3 = F32 False 128 4194304" "f32_of_int 4 = F32 False 129 0"
  "f32_of_int 5 = F32 False 129 2097152"
  by (simp_all add: f32_of_int_def f32_eval)

lemma memory_simps [simp]:
  "memory xs ys 0 = xs" "memory xs ys (Suc 0) = ys" "(memory xs ys)(0 := zs) = memory zs ys"
  by (auto simp: memory_def)

lemma norm_345:
  "norm_c ieee (memory (map f32_of_int [3, 4, 0, 0]) ys) 0 4
     = Inr (memory (map f32_of_int [3, 4, 0, 0]) ys, f32_of_int 5)"
  "norm_cpp ieee (memory (map f32_of_int [3, 4, 0, 0]) ys) 0 4
     = Inr (memory (map f32_of_int [3, 4, 0, 0]) ys, f32_of_int 5)"
  by (simp_all add: f32_of_int_values kernel_eval f32_eval)

lemma normalize_345:
  "normalize_c ieee (memory (map f32_of_int [3, 4, 0, 0]) ys) 0 4
     = Inr (memory [F32 False 126 1677722, F32 False 126 5033165, pos_zero, pos_zero] ys)"
  "normalize_cpp ieee (memory (map f32_of_int [3, 4, 0, 0]) ys) 0 4
     = Inr (memory [F32 False 126 1677722, F32 False 126 5033165, pos_zero, pos_zero] ys)"
  by (simp_all add: f32_of_int_values kernel_eval f32_eval)

lemma quotients_345:
  "fdiv (f32_of_int 3) (f32_of_int 5) = F32 False 126 1677722"
  "fdiv (f32_of_int 4) (f32_of_int 5) = F32 False 126 5033165"
  by (simp_all add: f32_of_int_values f32_eval)

lemma valof_345:
  "valof (F32 False 126 1677722) = 10066330 / 16777216"
  "valof (F32 False 126 5033165) = 13421773 / 16777216"
  by (simp_all add: valof_def mant_def expn_def powr_neg_numeral)

lemma unit_vectors:
  "euclideanDistance_c ieee (memory (map f32_of_int [1, 0, 0, 0]) (map f32_of_int [0, 1, 0, 0])) 0 1 4
     = Inr (F32 False 127 3474675,
            memory (map f32_of_int [1, 0, 0, 0]) (map f32_of_int [0, 1, 0, 0]))"
  "euclideanDistance_cpp ieee (memory (map f32_of_int [1, 0, 0, 0]) (map f32_of_int [0, 1, 0, 0])) 0 1 4
     = Inr (F32 False 127 3474675,
            memory (map f32_of_int [1, 0, 0, 0]) (map f32_of_int [0, 1, 0, 0]))"
  "cosineSimilarity_c ieee (memory (map f32_of_int [1, 0, 0, 0]) (map f32_of_int [0, 1, 0, 0])) 0 1 4
     = Inr (pos_zero, memory (map f32_of_int [1, 0, 0, 0]) (map f32_of_int [0, 1, 0, 0]))"
  "cosineSimilarity_cpp ieee (memory (map f32_of_int [1, 0, 0, 0]) (map f32_of_int [0, 1, 0, 0])) 0 1 4
     = Inr (pos_zero, memory (map f32_of_int [1, 0, 0, 0]) (map f32_of_int [0, 1, 0, 0]))"
  by (simp_all add: f32_of_int_values kernel_eval f32_eval)

section \<open>Read-only inputs\<close>

text \<open>
  Claim C5.  \<open>euclideanDistance\<close> and \<open>cosineSimilarity\<close> are read-only: whenever a
  call returns, the memory it returns is the memory it was given, in both kernels and for
  any arithmetic.  \<open>normalize\<close> leaves every buffer other than its argument as it was,
  and it does change its argument: on \<open>[3,4,0,0]\<close> the buffer differs after the call.
\<close>

theorem read_only_inputs:
  "(\<forall>r h'. euclideanDistance_c A h a b len = Inr (r, h') \<longrightarrow> h' = h) \<and>
   (\<forall>r h'. euclideanDistance_cpp A h a b len = Inr (r, h') \<longrightarrow> h' = h) \<and>
   (\<forall>r h'. cosineSimilarity_c A h a b len = Inr (r, h') \<longrightarrow> h' = h) \<and>
   (\<forall>r h'. cosineSimilarity_cpp A h a b len = Inr (r, h') \<longrightarrow> h' = h) \<and>
   (\<forall>h' p. normalize_c A h v len = Inr h' \<longrightarrow> p \<noteq> v \<longrightarrow> h' p = h p) \<and>
   (\<forall>h' p. normalize_cpp A h v len = Inr h' \<longrightarrow> p \<noteq> v \<longrightarrow> h' p = h p) \<and>
   (\<exists>h0 h'. normalize_c ieee h0 0 4 = Inr h' \<and> h' 0 \<noteq> h0 0) \<and>
   (\<exists>h0 h'. normalize_cpp ieee h0 0 4 = Inr h' \<and> h' 0 \<noteq> h0 0)"
proof -
  have ne: "memory [F32 False 126 1677722, F32 False 126 5033165, pos_zero, pos_zero] [] 0
          \<noteq> memory (map f32_of_int [3, 4, 0, 0]) ([] :: f32 list) 0"
    by (simp add: f32_of_int_values)
  have c: "\<exists>h0 h'. normalize_c ieee h0 0 4 = Inr h' \<and> h' 0 \<noteq> h0 0"
    using normalize_345(1)[of "[]"] ne by blast
  have d: "\<exists>h0 h'. normalize_cpp ieee h0 0 4 = Inr h' \<and> h' 0 \<noteq> h0 0"
    using normalize_345(2)[of "[]"] ne by blast
  show ?thesis
    using c d
    by (auto dest: euclideanDistance_c_heap euclideanDistance_cpp_heap cosineSimilarity_c_heap
        cosineSimilarity_cpp_heap normalize_c_frame normalize_cpp_frame)
qed

theorem read_only_inputs_witness:
  "(\<exists>r h'. euclideanDistance_c ieee
       (memory (map f32_of_int [1, 0, 0, 0]) (map f32_of_int [0, 1, 0, 0])) 0 1 4 = Inr (r, h') \<and>
       h' = memory (map f32_of_int [1, 0, 0, 0]) (map f32_of_int [0, 1, 0, 0])) \<and>
   (\<exists>r h'. cosineSimilarity_cpp ieee
       (memory (map f32_of_int [1, 0, 0, 0]) (map f32_of_int [0, 1, 0, 0])) 0 1 4 = Inr (r, h') \<and>
       h' = memory (map f32_of_int [1, 0, 0, 0]) (map f32_of_int [0, 1, 0, 0])) \<and>
   (\<exists>h'. normalize_c ieee
       (memory (map f32_of_int [3, 4, 0, 0]) (map f32_of_int [0, 1, 0, 0])) 0 4 = Inr h' \<and>
       (1::nat) \<noteq> 0 \<and>
       h' 1 = memory (map f32_of_int [3, 4, 0, 0]) (map f32_of_int [0, 1, 0, 0]) 1)"
  using read_only_inputs [of ieee
      "memory (map f32_of_int [1, 0, 0, 0]) (map f32_of_int [0, 1, 0, 0])" 0 1 4 0]
    read_only_inputs [of ieee
      "memory (map f32_of_int [3, 4, 0, 0]) (map f32_of_int [0, 1, 0, 0])" 0 1 4 0]
    unit_vectors(1,4) normalize_345(1)[of "map f32_of_int [0, 1, 0, 0]"]
  by (intro conjI) (metis zero_neq_one)+

section \<open>Bounds of the lane accesses\<close>

text \<open>
  A lane group that starts at \<open>j\<close> reads or writes the indices \<open>j .. j + 3\<close>.  In a
  buffer of exactly \<open>len\<close> elements a load or store of the model succeeds only if all
  four indices are in \<open>[0, len)\<close>.
\<close>

lemma for_loop_ragged:
  assumes "len mod 4 \<noteq> 0" and "len \<le> INT_MAX"
    and ok: "\<And>j u. 0 \<le> j \<Longrightarrow> j + 3 < len \<Longrightarrow> I u \<Longrightarrow> \<exists>u'. body j u = Inr u' \<and> I u'"
    and bad: "\<And>j u. 0 \<le> j \<Longrightarrow> j < len \<Longrightarrow> len \<le> j + 3 \<Longrightarrow> I u \<Longrightarrow>
                body j u = Inl OutOfBounds"
  shows "0 \<le> i \<Longrightarrow> i mod 4 = 0 \<Longrightarrow> i < len \<Longrightarrow> I s \<Longrightarrow>
           for_loop 4 i len body s = Inl OutOfBounds"
proof (induction "nat (len - i)" arbitrary: i s rule: less_induct)
  case less
  show ?case
  proof (cases "i + 3 < len")
    case True
    obtain s' where b: "body i s = Inr s'" and I': "I s'"
      using ok[OF less.prems(1) True less.prems(4)] by blast
    have lt: "i + 4 < len" using True less.prems(2) assms(1) by presburger
    have "for_loop 4 i len body s = for_loop 4 (i + 4) len body s'"
      using less.prems(3) b lt assms(2) by (intro for_loop_step) simp_all
    moreover have "for_loop 4 (i + 4) len body s' = Inl OutOfBounds"
    proof (rule less.hyps[OF _ _ _ lt I'])
      show "nat (len - (i + 4)) < nat (len - i)" using less.prems(3) by linarith
      show "0 \<le> i + 4" using less.prems(1) by simp
      show "(i + 4) mod 4 = 0" using less.prems(2) by presburger
    qed
    ultimately show ?thesis by simp
  next
    case False
    then have "body i s = Inl OutOfBounds"
      using bad[OF less.prems(1,3) _ less.prems(4)] by simp
    then show ?thesis using less.prems(3) by (intro for_loop_fail) simp_all
  qed
qed

lemma lane_group_in_range:
  "0 \<le> j \<Longrightarrow> j < len \<Longrightarrow> (len - j) mod 4 = 0 \<Longrightarrow> j + 3 < (len::int)"
  by presburger

lemma euclidean_body_c_ok:
  "0 \<le> j \<Longrightarrow> j + 3 < int (length (fst u a)) \<Longrightarrow> j + 3 < int (length (fst u b)) \<Longrightarrow>
     \<exists>u'. euclidean_body_c A a b j u = Inr u' \<and> fst u' = fst u"
  by (cases u) (simp add: euclidean_body_c_def v128_load_def bind_def Let_def)

lemma cosine_body_c_ok:
  "0 \<le> j \<Longrightarrow> j + 3 < int (length (fst u a)) \<Longrightarrow> j + 3 < int (length (fst u b)) \<Longrightarrow>
     \<exists>u'. cosine_body_c A a b j u = Inr u' \<and> fst u' = fst u"
  by (cases u) (simp add: cosine_body_c_def v128_load_def bind_def split: prod.splits)

lemma norm_body_c_ok:
  "0 \<le> j \<Longrightarrow> j + 3 < int (length (fst u v)) \<Longrightarrow>
     \<exists>u'. norm_body_c A v j u = Inr u' \<and> fst u' = fst u"
  by (cases u) (simp add: norm_body_c_def v128_load_def bind_def)

lemma scale_body_c_ok:
  "0 \<le> j \<Longrightarrow> j + 3 < int (length (h v)) \<Longrightarrow>
     \<exists>h'. scale_body_c A v nv j h = Inr h' \<and> length (h' v) = length (h v)"
  by (simp add: scale_body_c_def v128_load_def v128_store_def bind_def f32x4_mul_def
      split: prod.splits)

lemma euclidean_loop_c_total:
  assumes "0 \<le> len" "len mod 4 = 0" "len \<le> INT_MAX"
    and "length (h a) = nat len" "length (h b) = nat len"
  shows "\<exists>acc'. for_loop 4 0 len (euclidean_body_c (A :: 'f arith) a b) (h, acc) = Inr (h, acc')"
proof -
  have "\<exists>t. for_loop 4 0 len (euclidean_body_c A a b) (h, acc) = Inr t \<and> fst t = h"
  proof (rule for_loop_total[where I = "\<lambda>j st. fst st = h"])
    fix j and u :: "'f heap \<times> 'f v128" assume j: "0 \<le> j" "j < len" "(len - j) mod 4 = 0" and u: "fst u = h"
    have "j + 3 < len" using j by (rule lane_group_in_range)
    then show "\<exists>u'. euclidean_body_c A a b j u = Inr u' \<and> fst u' = h"
      using euclidean_body_c_ok[of j u a b A] j(1) u assms(4,5) by auto
  qed (use assms in simp_all)
  then show ?thesis by (metis prod.collapse)
qed

lemma cosine_loop_c_total:
  assumes "0 \<le> len" "len mod 4 = 0" "len \<le> INT_MAX"
    and "length (h a) = nat len" "length (h b) = nat len"
  shows "\<exists>acc'. for_loop 4 0 len (cosine_body_c (A :: 'f arith) a b) (h, acc) = Inr (h, acc')"
proof -
  have "\<exists>t. for_loop 4 0 len (cosine_body_c A a b) (h, acc) = Inr t \<and> fst t = h"
  proof (rule for_loop_total[where I = "\<lambda>j st. fst st = h"])
    fix j and u :: "'f heap \<times> 'f v128 \<times> 'f v128 \<times> 'f v128" assume j: "0 \<le> j" "j < len" "(len - j) mod 4 = 0" and u: "fst u = h"
    have "j + 3 < len" using j by (rule lane_group_in_range)
    then show "\<exists>u'. cosine_body_c A a b j u = Inr u' \<and> fst u' = h"
      using cosine_body_c_ok[of j u a b A] j(1) u assms(4,5) by auto
  qed (use assms in simp_all)
  then show ?thesis by (metis prod.collapse)
qed

lemma norm_loop_c_total:
  assumes "0 \<le> len" "len mod 4 = 0" "len \<le> INT_MAX" and "length (h v) = nat len"
  shows "\<exists>acc'. for_loop 4 0 len (norm_body_c (A :: 'f arith) v) (h, acc) = Inr (h, acc')"
proof -
  have "\<exists>t. for_loop 4 0 len (norm_body_c A v) (h, acc) = Inr t \<and> fst t = h"
  proof (rule for_loop_total[where I = "\<lambda>j st. fst st = h"])
    fix j and u :: "'f heap \<times> 'f v128" assume j: "0 \<le> j" "j < len" "(len - j) mod 4 = 0" and u: "fst u = h"
    have "j + 3 < len" using j by (rule lane_group_in_range)
    then show "\<exists>u'. norm_body_c A v j u = Inr u' \<and> fst u' = h"
      using norm_body_c_ok[of j u v A] j(1) u assms(4) by auto
  qed (use assms in simp_all)
  then show ?thesis by (metis prod.collapse)
qed

lemma scale_loop_c_total:
  assumes "0 \<le> len" "len mod 4 = 0" "len \<le> INT_MAX" and "length (h v) = nat len"
  shows "\<exists>h'. for_loop 4 0 len (scale_body_c (A :: 'f arith) v nv) h = Inr h'"
proof -
  have "\<exists>t. for_loop 4 0 len (scale_body_c A v nv) h = Inr t \<and> length (t v) = nat len"
  proof (rule for_loop_total[where I = "\<lambda>j u. length (u v) = nat len"])
    fix j and u :: "'f heap" assume j: "0 \<le> j" "j < len" "(len - j) mod 4 = 0" and u: "length (u v) = nat len"
    have "j + 3 < len" using j by (rule lane_group_in_range)
    then show "\<exists>u'. scale_body_c A v nv j u = Inr u' \<and> length (u' v) = nat len"
      using scale_body_c_ok[of j u v A nv] j(1) u by auto
  qed (use assms in simp_all)
  then show ?thesis by blast
qed

lemma euclidean_loop_c_ragged:
  assumes "0 < len" "len mod 4 \<noteq> 0" "len \<le> INT_MAX"
    and "length (h a) = nat len" "length (h b) = nat len"
  shows "for_loop 4 0 len (euclidean_body_c (A :: 'f arith) a b) (h, acc) = Inl OutOfBounds"
proof (rule for_loop_ragged[where I = "\<lambda>st. fst st = h"])
  fix j and u :: "'f heap \<times> 'f v128" assume "0 \<le> j" "j + 3 < len" "fst u = h"
  then show "\<exists>u'. euclidean_body_c A a b j u = Inr u' \<and> fst u' = h"
    using euclidean_body_c_ok[of j u a b A] assms(4,5) by auto
next
  fix j and u :: "'f heap \<times> 'f v128" assume "0 \<le> j" "j < len" "len \<le> j + 3" "fst u = h"
  then show "euclidean_body_c A a b j u = Inl OutOfBounds"
    using assms(4) by (cases u) (auto simp: euclidean_body_c_def v128_load_def bind_def)
qed (use assms in simp_all)

lemma cosine_loop_c_ragged:
  assumes "0 < len" "len mod 4 \<noteq> 0" "len \<le> INT_MAX"
    and "length (h a) = nat len" "length (h b) = nat len"
  shows "for_loop 4 0 len (cosine_body_c (A :: 'f arith) a b) (h, acc) = Inl OutOfBounds"
proof (rule for_loop_ragged[where I = "\<lambda>st. fst st = h"])
  fix j and u :: "'f heap \<times> 'f v128 \<times> 'f v128 \<times> 'f v128" assume "0 \<le> j" "j + 3 < len" "fst u = h"
  then show "\<exists>u'. cosine_body_c A a b j u = Inr u' \<and> fst u' = h"
    using cosine_body_c_ok[of j u a b A] assms(4,5) by auto
next
  fix j and u :: "'f heap \<times> 'f v128 \<times> 'f v128 \<times> 'f v128" assume "0 \<le> j" "j < len" "len \<le> j + 3" "fst u = h"
  then show "cosine_body_c A a b j u = Inl OutOfBounds"
    using assms(4) by (cases u) (auto simp: cosine_body_c_def v128_load_def bind_def)
qed (use assms in simp_all)

lemma norm_loop_c_ragged:
  assumes "0 < len" "len mod 4 \<noteq> 0" "len \<le> INT_MAX" and "length (h v) = nat len"
  shows "for_loop 4 0 len (norm_body_c (A :: 'f arith) v) (h, acc) = Inl OutOfBounds"
proof (rule for_loop_ragged[where I = "\<lambda>st. fst st = h"])
  fix j and u :: "'f heap \<times> 'f v128" assume "0 \<le> j" "j + 3 < len" "fst u = h"
  then show "\<exists>u'. norm_body_c A v j u = Inr u' \<and> fst u' = h"
    using norm_body_c_ok[of j u v A] assms(4) by auto
next
  fix j and u :: "'f heap \<times> 'f v128" assume "0 \<le> j" "j < len" "len \<le> j + 3" "fst u = h"
  then show "norm_body_c A v j u = Inl OutOfBounds"
    using assms(4) by (cases u) (auto simp: norm_body_c_def v128_load_def bind_def)
qed (use assms in simp_all)

text \<open>
  Claim C10.  With \<open>len\<close> non-negative and a multiple of 4, and buffers of exactly
  \<open>len\<close> elements, the three operations of vector\_simd.c return without an error: no
  load or store leaves \<open>[0, len)\<close> and the loop counter does not overflow.  There is no
  remainder pass: when \<open>len\<close> is positive and not a multiple of 4, the last lane group
  reaches past the end of the buffers, and each operation ends in an out-of-bounds access.
\<close>

theorem lane_accesses_in_bounds:
  "(0 \<le> len \<and> len mod 4 = 0 \<and> len \<le> INT_MAX \<and>
      length (h a) = nat len \<and> length (h b) = nat len \<and> length (h v) = nat len \<longrightarrow>
      (\<exists>r. euclideanDistance_c A h a b len = Inr r) \<and>
      (\<exists>r. cosineSimilarity_c A h a b len = Inr r) \<and>
      (\<exists>h'. normalize_c A h v len = Inr h')) \<and>
   (0 < len \<and> len mod 4 \<noteq> 0 \<and> len \<le> INT_MAX \<and>
      length (h a) = nat len \<and> length (h b) = nat len \<and> length (h v) = nat len \<longrightarrow>
      euclideanDistance_c A h a b len = Inl OutOfBounds \<and>
      cosineSimilarity_c A h a b len = Inl OutOfBounds \<and>
      normalize_c A h v len = Inl OutOfBounds)"
proof (intro conjI impI; elim conjE)
  assume H: "0 \<le> len" "len mod 4 = 0" "len \<le> INT_MAX"
    "length (h a) = nat len" "length (h b) = nat len" "length (h v) = nat len"
  show "\<exists>r. euclideanDistance_c A h a b len = Inr r"
    using euclidean_loop_c_total[of len h a b A "f32x4_splat (f_zero A)"] H
    by (auto simp: euclideanDistance_c_def bind_def Let_def)
  show "\<exists>r. cosineSimilarity_c A h a b len = Inr r"
    using cosine_loop_c_total[of len h a b A
        "(f32x4_splat (f_zero A), f32x4_splat (f_zero A), f32x4_splat (f_zero A))"] H
    by (auto simp: cosineSimilarity_c_def cosine_sums_c_def bind_def)
  show "\<exists>h'. normalize_c A h v len = Inr h'"
  proof -
    obtain acc' where "for_loop 4 0 len (norm_body_c A v) (h, f32x4_splat (f_zero A))
        = Inr (h, acc')"
      using norm_loop_c_total[of len h v A "f32x4_splat (f_zero A)"] H by blast
    then have "normalize_c A h v len = for_loop 4 0 len
        (scale_body_c A v (f32x4_splat (f_div A (f_one A) (f_sqrt A (lane_sum A acc'))))) h"
      by (simp add: normalize_c_def norm_c_def bind_def Let_def)
    then show ?thesis using scale_loop_c_total[of len h v A] H by simp
  qed
next
  assume H: "0 < len" "len mod 4 \<noteq> 0" "len \<le> INT_MAX"
    "length (h a) = nat len" "length (h b) = nat len" "length (h v) = nat len"
  show "euclideanDistance_c A h a b len = Inl OutOfBounds"
    by (simp add: euclideanDistance_c_def euclidean_loop_c_ragged[of len h a b] H bind_def)
  show "cosineSimilarity_c A h a b len = Inl OutOfBounds"
    by (simp add: cosineSimilarity_c_def cosine_sums_c_def cosine_loop_c_ragged[of len h a b] H
        bind_def)
  show "normalize_c A h v len = Inl OutOfBounds"
    by (simp add: normalize_c_def norm_c_def norm_loop_c_ragged[of len h v] H bind_def)
qed

theorem lane_accesses_in_bounds_witness:
  "(0::int) \<le> 4 \<and> (4::int) mod 4 = 0 \<and> 4 \<le> INT_MAX \<and>
   length (memory (map f32_of_int [1, 0, 0, 0]) (map f32_of_int [0, 1, 0, 0]) 0) = nat 4 \<and>
   (\<exists>r. euclideanDistance_c ieee
          (memory (map f32_of_int [1, 0, 0, 0]) (map f32_of_int [0, 1, 0, 0])) 0 1 4 = Inr r) \<and>
   (\<exists>h'. normalize_c ieee
          (memory (map f32_of_int [1, 0, 0, 0]) (map f32_of_int [0, 1, 0, 0])) 0 4 = Inr h') \<and>
   (0::int) < 5 \<and> (5::int) mod 4 \<noteq> 0 \<and>
   length (memory (map f32_of_int [1, 0, 0, 0, 0]) (map f32_of_int [0, 1, 0, 0, 0]) 0) = nat 5 \<and>
   euclideanDistance_c ieee
     (memory (map f32_of_int [1, 0, 0, 0, 0]) (map f32_of_int [0, 1, 0, 0, 0])) 0 1 5
     = Inl OutOfBounds \<and>
   normalize_c ieee
     (memory (map f32_of_int [1, 0, 0, 0, 0]) (map f32_of_int [0, 1, 0, 0, 0])) 0 5
     = Inl OutOfBounds"
  using lane_accesses_in_bounds [where len = 4 and a = 0 and b = 1 and v = 0 and A = ieee
      and h = "memory (map f32_of_int [1, 0, 0, 0]) (map f32_of_int [0, 1, 0, 0])"]
    lane_accesses_in_bounds [where len = 5 and a = 0 and b = 1 and v = 0 and A = ieee
      and h = "memory (map f32_of_int [1, 0, 0, 0, 0]) (map f32_of_int [0, 1, 0, 0, 0])"]
  by (simp add: INT_MAX_def)

section \<open>The scenario [3, 4, 0, 0]\<close>

text \<open>
  Claim C7.  For \<open>v = [3, 4, 0, 0]\<close> and \<open>len = 4\<close> the norm computed by
  \<open>normalize\<close> is 5 and the buffer holds \<open>[0.6, 0.8, 0, 0]\<close> after the call, in both
  kernels: the first two elements are the correctly rounded quotients \<open>3 / 5\<close> and
  \<open>4 / 5\<close>, each within half a unit in the last place (\<open>2^-25\<close>) of 0.6 and 0.8.
\<close>

theorem scenario_3_4_0_0:
  "norm_c ieee (memory (map f32_of_int [3, 4, 0, 0]) ys) 0 4
     = Inr (memory (map f32_of_int [3, 4, 0, 0]) ys, f32_of_int 5) \<and>
   norm_cpp ieee (memory (map f32_of_int [3, 4, 0, 0]) ys) 0 4
     = Inr (memory (map f32_of_int [3, 4, 0, 0]) ys, f32_of_int 5) \<and>
   normalize_c ieee (memory (map f32_of_int [3, 4, 0, 0]) ys) 0 4
     = Inr (memory [fdiv (f32_of_int 3) (f32_of_int 5), fdiv (f32_of_int 4) (f32_of_int 5),
                    f32_of_int 0, f32_of_int 0] ys) \<and>
   normalize_cpp ieee (memory (map f32_of_int [3, 4, 0, 0]) ys) 0 4
     = Inr (memory [fdiv (f32_of_int 3) (f32_of_int 5), fdiv (f32_of_int 4) (f32_of_int 5),
                    f32_of_int 0, f32_of_int 0] ys) \<and>
   valof (f32_of_int 5) = 5 \<and>
   \<bar>valof (fdiv (f32_of_int 3) (f32_of_int 5)) - 6 / 10\<bar> \<le> 1 / 2 ^ 25 \<and>
   \<bar>valof (fdiv (f32_of_int 4) (f32_of_int 5)) - 8 / 10\<bar> \<le> 1 / 2 ^ 25 \<and>
   valof (f32_of_int 0) = 0"
proof -
  have "valof (f32_of_int 5) = 5" "valof (f32_of_int 0) = 0"
    by (simp_all add: f32_of_int_values valof_def mant_def expn_def pos_zero_def
        powr_neg_numeral)
  moreover have "\<bar>valof (fdiv (f32_of_int 3) (f32_of_int 5)) - 6 / 10\<bar> \<le> 1 / 2 ^ 25"
    "\<bar>valof (fdiv (f32_of_int 4) (f32_of_int 5)) - 8 / 10\<bar> \<le> 1 / 2 ^ 25"
    unfolding quotients_345 valof_345 by simp_all
  ultimately show ?thesis
    using norm_345[of ys] normalize_345[of ys]
    unfolding quotients_345 f32_of_int_values(1) by simp
qed

section \<open>Commutativity of the similarity\<close>

text \<open>
  Multiplication of floats is commutative but for the NaN that it returns: the exact
  product, its sign and the special cases are symmetric in the operands, and a NaN operand
  makes the product a NaN in either order.  Every operation maps the same operands to the
  same result, in the sense of \<open>same_float\<close>.  Exchanging the two vectors exchanges the
  two norm sums and leaves the dot product the same, step by step through the loop.
\<close>

lemma same_float_refl [simp]: "same_float x x"
  by (simp add: same_float_def)

lemma same_float_nan: "same_float x y \<Longrightarrow> is_nan x = is_nan y"
  by (auto simp: same_float_def)

lemma fmul_commute:
  assumes "\<not> is_nan x" and "\<not> is_nan y"
  shows "fmul x y = fmul y x"
  using assms
  by (cases "sign x"; cases "sign y") (auto simp: fmul_def mult.commute add.commute)

lemma fmul_swap: "same_float (fmul x y) (fmul y x)"
proof (cases "is_nan x \<or> is_nan y")
  case True
  then have "is_nan (fmul x y)" "is_nan (fmul y x)" by (auto simp: nan_operand)
  then show ?thesis by (simp add: same_float_def)
next
  case False
  then show ?thesis by (simp add: fmul_commute)
qed

lemma fadd_same:
  assumes "same_float x x'" and "same_float y y'"
  shows "same_float (fadd x y) (fadd x' y')"
proof (cases "x = x' \<and> y = y'")
  case True
  then show ?thesis by simp
next
  case False
  then have "(is_nan x \<and> is_nan x') \<or> (is_nan y \<and> is_nan y')"
    using assms by (auto simp: same_float_def)
  then have "is_nan (fadd x y)" "is_nan (fadd x' y')" by (auto simp: nan_operand)
  then show ?thesis by (simp add: same_float_def)
qed

lemma fdiv_same:
  assumes "same_float x x'" and "same_float y y'"
  shows "same_float (fdiv x y) (fdiv x' y')"
proof (cases "x = x' \<and> y = y'")
  case True
  then show ?thesis by simp
next
  case False
  then have "(is_nan x \<and> is_nan x') \<or> (is_nan y \<and> is_nan y')"
    using assms by (auto simp: same_float_def)
  then have "is_nan (fdiv x y)" "is_nan (fdiv x' y')" by (auto simp: nan_operand)
  then show ?thesis by (simp add: same_float_def)
qed

lemma lane_sum_same:
  assumes "same_lanes u w"
  shows "same_float (lane_sum ieee u) (lane_sum ieee w)"
  using assms by (cases u; cases w) (simp add: same_lanes_def lane_sum_def fadd_same)

lemma cosine_body_cpp_swap:
  assumes "swapped same_float u w"
  shows "rel_sum (=) (swapped same_float)
           (cosine_body_cpp ieee a b j u) (cosine_body_cpp ieee b a j w)"
  using assms
  by (cases u; cases w)
    (auto simp: swapped_def cosine_body_cpp_def bind_def load_def fadd_same fmul_swap)

lemma cosine_body_c_swap:
  assumes "swapped same_lanes u w"
  shows "rel_sum (=) (swapped same_lanes)
           (cosine_body_c ieee a b j u) (cosine_body_c ieee b a j w)"
proof -
  obtain h d0 d1 d2 d3 na nb where u: "u = (h, (d0, d1, d2, d3), na, nb)"
    by (metis prod.collapse)
  obtain e0 e1 e2 e3 where w: "w = (h, (e0, e1, e2, e3), nb, na)"
    and s: "same_float d0 e0" "same_float d1 e1" "same_float d2 e2" "same_float d3 e3"
    using assms unfolding u by (cases w) (auto simp: swapped_def same_lanes_def)
  show ?thesis
    unfolding u w using s
    by (simp add: swapped_def same_lanes_def cosine_body_c_def bind_def v128_load_def
        f32x4_add_def f32x4_mul_def fadd_same fmul_swap)
qed

lemma cosine_sums_cpp_swap:
  "rel_sum (=) (swapped same_float)
     (cosine_sums_cpp ieee h a b len) (cosine_sums_cpp ieee h b a len)"
  unfolding cosine_sums_cpp_def
  by (rule for_loop_rel) (simp_all add: swapped_def cosine_body_cpp_swap)

lemma cosine_sums_c_swap:
  "rel_sum (=) (swapped same_float)
     (cosine_sums_c ieee h a b len) (cosine_sums_c ieee h b a len)"
proof -
  let ?z = "f32x4_splat (f_zero ieee)"
  have "rel_sum (=) (swapped same_lanes)
          (for_loop 4 0 len (cosine_body_c ieee a b) (h, ?z, ?z, ?z))
          (for_loop 4 0 len (cosine_body_c ieee b a) (h, ?z, ?z, ?z))"
    by (rule for_loop_rel)
      (simp_all add: swapped_def same_lanes_def f32x4_splat_def cosine_body_c_swap)
  then show ?thesis
    unfolding cosine_sums_c_def
    by (auto simp: bind_def swapped_def rel_sum.simps lane_sum_same)
qed

lemma cosine_denominator_swap:
  "same_float (cosine_denominator ieee m n) (cosine_denominator ieee n m)"
  by (simp add: cosine_denominator_def fmul_swap)

lemma cosineSimilarity_cpp_swap:
  "same_result (cosineSimilarity_cpp ieee h a b len) (cosineSimilarity_cpp ieee h b a len)"
  using cosine_sums_cpp_swap[of h a b len]
  by (auto simp: cosineSimilarity_cpp_def bind_def swapped_def rel_sum.simps same_result_def
      fdiv_same cosine_denominator_swap)

lemma cosineSimilarity_c_swap:
  "same_result (cosineSimilarity_c ieee h a b len) (cosineSimilarity_c ieee h b a len)"
  using cosine_sums_c_swap[of h a b len]
  by (auto simp: cosineSimilarity_c_def bind_def swapped_def rel_sum.simps same_result_def
      fdiv_same cosine_denominator_swap)

lemma nan_either_order_cpp:
  assumes "cosineSimilarity_cpp ieee h a b len = Inr (r, h')" and "is_nan r"
  shows "\<exists>r'. cosineSimilarity_cpp ieee h b a len = Inr (r', h') \<and> is_nan r'"
  using cosineSimilarity_cpp_swap[of h a b len] assms
  by (auto simp: same_result_def same_float_def split: sum.splits)

lemma nan_either_order_c:
  assumes "cosineSimilarity_c ieee h a b len = Inr (r, h')" and "is_nan r"
  shows "\<exists>r'. cosineSimilarity_c ieee h b a len = Inr (r', h') \<and> is_nan r'"
  using cosineSimilarity_c_swap[of h a b len] assms
  by (auto simp: same_result_def same_float_def split: sum.splits)

text \<open>
  Claim C3, as amended.  \<open>cosineSimilarity\<close> on \<open>(a, b)\<close> and on \<open>(b, a)\<close> has the same
  result, in both kernels, for all buffers and lengths: the two calls signal the same
  error, or they return the same memory and either exactly the same float or a NaN each.
\<close>

theorem cosine_commutative:
  "same_result (cosineSimilarity_c ieee h a b len) (cosineSimilarity_c ieee h b a len) \<and>
   same_result (cosineSimilarity_cpp ieee h a b len) (cosineSimilarity_cpp ieee h b a len)"
  using cosineSimilarity_c_swap cosineSimilarity_cpp_swap by blast

theorem cosine_commutative_witness:
  "same_result
     (cosineSimilarity_c ieee (memory (map f32_of_int [3, 4, 0, 0]) (map f32_of_int [4, 3, 0, 0]))
        0 1 4)
     (cosineSimilarity_c ieee (memory (map f32_of_int [3, 4, 0, 0]) (map f32_of_int [4, 3, 0, 0]))
        1 0 4) \<and>
   same_result
     (cosineSimilarity_cpp ieee (memory (map f32_of_int [3, 4, 0, 0]) (map f32_of_int [4, 3, 0, 0]))
        0 1 4)
     (cosineSimilarity_cpp ieee (memory (map f32_of_int [3, 4, 0, 0]) (map f32_of_int [4, 3, 0, 0]))
        1 0 4) \<and>
   cosineSimilarity_cpp ieee (memory (map f32_of_int [3, 4, 0, 0]) (map f32_of_int [4, 3, 0, 0]))
        0 1 4
     = Inr (F32 False 126 7717519,
            memory (map f32_of_int [3, 4, 0, 0]) (map f32_of_int [4, 3, 0, 0])) \<and>
   cosineSimilarity_cpp ieee (memory (map f32_of_int [3, 4, 0, 0]) (map f32_of_int [4, 3, 0, 0]))
        1 0 4
     = Inr (F32 False 126 7717519,
            memory (map f32_of_int [3, 4, 0, 0]) (map f32_of_int [4, 3, 0, 0]))"
proof -
  have "cosineSimilarity_cpp ieee
          (memory (map f32_of_int [3, 4, 0, 0]) (map f32_of_int [4, 3, 0, 0])) 0 1 4
        = Inr (F32 False 126 7717519,
            memory (map f32_of_int [3, 4, 0, 0]) (map f32_of_int [4, 3, 0, 0]))"
    "cosineSimilarity_cpp ieee
          (memory (map f32_of_int [3, 4, 0, 0]) (map f32_of_int [4, 3, 0, 0])) 1 0 4
        = Inr (F32 False 126 7717519,
            memory (map f32_of_int [3, 4, 0, 0]) (map f32_of_int [4, 3, 0, 0]))"
    by (simp_all add: f32_of_int_values kernel_eval f32_eval)
  then show ?thesis
    using cosine_commutative
      [of "memory (map f32_of_int [3, 4, 0, 0]) (map f32_of_int [4, 3, 0, 0])" 0 1 4]
    by simp
qed

text \<open>
  The two calls do not always return exactly the same value.  With a NaN of payload 1 in
  \<open>a\<close> and a NaN of payload 2 in \<open>b\<close>, each call returns the NaN of its first argument,
  so the two results are different floats.  And on two zero vectors both calls return the
  default NaN, which does not compare equal to itself.
\<close>

theorem cosine_nan_counterexample:
  "cosineSimilarity_cpp ieee
     (memory [F32 False 255 4194305, pos_zero, pos_zero, pos_zero]
             [F32 False 255 4194306, pos_zero, pos_zero, pos_zero]) 0 1 4
     = Inr (F32 False 255 4194305,
            memory [F32 False 255 4194305, pos_zero, pos_zero, pos_zero]
                   [F32 False 255 4194306, pos_zero, pos_zero, pos_zero]) \<and>
   cosineSimilarity_cpp ieee
     (memory [F32 False 255 4194305, pos_zero, pos_zero, pos_zero]
             [F32 False 255 4194306, pos_zero, pos_zero, pos_zero]) 1 0 4
     = Inr (F32 False 255 4194306,
            memory [F32 False 255 4194305, pos_zero, pos_zero, pos_zero]
                   [F32 False 255 4194306, pos_zero, pos_zero, pos_zero]) \<and>
   cosineSimilarity_c ieee
     (memory [F32 False 255 4194305, pos_zero, pos_zero, pos_zero]
             [F32 False 255 4194306, pos_zero, pos_zero, pos_zero]) 0 1 4
     = Inr (F32 False 255 4194305,
            memory [F32 False 255 4194305, pos_zero, pos_zero, pos_zero]
                   [F32 False 255 4194306, pos_zero, pos_zero, pos_zero]) \<and>
   cosineSimilarity_c ieee
     (memory [F32 False 255 4194305, pos_zero, pos_zero, pos_zero]
             [F32 False 255 4194306, pos_zero, pos_zero, pos_zero]) 1 0 4
     = Inr (F32 False 255 4194306,
            memory [F32 False 255 4194305, pos_zero, pos_zero, pos_zero]
                   [F32 False 255 4194306, pos_zero, pos_zero, pos_zero]) \<and>
   F32 False 255 4194305 \<noteq> F32 False 255 4194306 \<and>
   cosineSimilarity_cpp ieee (memory (map f32_of_int [0, 0, 0, 0]) (map f32_of_int [0, 0, 0, 0]))
     0 1 4
     = Inr (quiet_nan, memory (map f32_of_int [0, 0, 0, 0]) (map f32_of_int [0, 0, 0, 0])) \<and>
   cosineSimilarity_cpp ieee (memory (map f32_of_int [0, 0, 0, 0]) (map f32_of_int [0, 0, 0, 0]))
     1 0 4
     = Inr (quiet_nan, memory (map f32_of_int [0, 0, 0, 0]) (map f32_of_int [0, 0, 0, 0])) \<and>
   cosineSimilarity_c ieee (memory (map f32_of_int [0, 0, 0, 0]) (map f32_of_int [0, 0, 0, 0]))
     0 1 4
     = Inr (quiet_nan, memory (map f32_of_int [0, 0, 0, 0]) (map f32_of_int [0, 0, 0, 0])) \<and>
   cosineSimilarity_c ieee (memory (map f32_of_int [0, 0, 0, 0]) (map f32_of_int [0, 0, 0, 0]))
     1 0 4
     = Inr (quiet_nan, memory (map f32_of_int [0, 0, 0, 0]) (map f32_of_int [0, 0, 0, 0])) \<and>
   \<not> feq quiet_nan quiet_nan"
  by (simp add: f32_of_int_values kernel_eval f32_eval)

section \<open>The zero vector in normalize\<close>

text \<open>
  On a buffer of zeros both kernels compute the norm \<open>+0\<close>.  The scaling loop of
  vector\_simd.c then multiplies every element by \<open>1 / 0\<close>, an infinity, and
  \<open>0 * infinity\<close> is a NaN.
\<close>

lemma v128_load_replicate:
  assumes "h p = replicate n x" and "0 \<le> j" and "j + 3 < int n"
  shows "v128_load h p j = Inr (x, x, x, x)"
  using assms by (simp add: v128_load_def nat_less_iff)

lemma load_replicate:
  assumes "h p = replicate n x" and "0 \<le> j" and "j < int n"
  shows "load h p j = Inr x"
  using assms by (simp add: load_def nat_less_iff)

lemma norm_loop_c_zero:
  assumes "0 \<le> len" "len mod 4 = 0" "len \<le> INT_MAX"
    and "h v = replicate (nat len) pos_zero"
  shows "for_loop 4 0 len (norm_body_c ieee v) (h, f32x4_splat pos_zero)
           = Inr (h, f32x4_splat pos_zero)"
proof -
  have "\<exists>t. for_loop 4 0 len (norm_body_c ieee v) (h, f32x4_splat pos_zero) = Inr t
          \<and> t = (h, f32x4_splat pos_zero)"
  proof (rule for_loop_total[where I = "\<lambda>j st. st = (h, f32x4_splat pos_zero)"])
    fix j and u :: "f32 heap \<times> f32 v128"
    assume j: "0 \<le> j" "j < len" "(len - j) mod 4 = 0" and u: "u = (h, f32x4_splat pos_zero)"
    have "j + 3 < len" using j by (rule lane_group_in_range)
    then have "v128_load h v j = Inr (pos_zero, pos_zero, pos_zero, pos_zero)"
      using assms(4) j(1) by (intro v128_load_replicate[where n = "nat len"]) simp_all
    then show "\<exists>u'. norm_body_c ieee v j u = Inr u' \<and> u' = (h, f32x4_splat pos_zero)"
      using u by (simp add: norm_body_c_def bind_def f32x4_splat_def f32x4_add_def
          f32x4_mul_def zero_arith)
  qed (use assms in simp_all)
  then show ?thesis by blast
qed

lemma norm_c_zero:
  assumes "0 \<le> len" "len mod 4 = 0" "len \<le> INT_MAX"
    and "h v = replicate (nat len) pos_zero"
  shows "norm_c ieee h v len = Inr (h, pos_zero)"
  using norm_loop_c_zero[of len h v] assms
  by (simp add: norm_c_def bind_def lane_sum_def f32x4_splat_def zero_arith)

lemma norm_cpp_zero:
  assumes "0 \<le> len" "len \<le> INT_MAX" and "h v = replicate (nat len) pos_zero"
  shows "norm_cpp ieee h v len = Inr (h, pos_zero)"
proof -
  have "\<exists>t. for_loop 1 0 len (norm_body_cpp ieee v) (h, pos_zero) = Inr t \<and> t = (h, pos_zero)"
  proof (rule for_loop_total[where I = "\<lambda>j st. st = (h, pos_zero)"])
    fix j and u :: "f32 heap \<times> f32"
    assume j: "0 \<le> j" "j < len" and u: "u = (h, pos_zero)"
    have "load h v j = Inr pos_zero"
      using assms(3) j by (intro load_replicate[where n = "nat len"]) simp_all
    then show "\<exists>u'. norm_body_cpp ieee v j u = Inr u' \<and> u' = (h, pos_zero)"
      using u by (simp add: norm_body_cpp_def bind_def zero_arith)
  qed (use assms in simp_all)
  then have "for_loop 1 0 len (norm_body_cpp ieee v) (h, pos_zero) = Inr (h, pos_zero)"
    by blast
  then show ?thesis by (simp add: norm_cpp_def bind_def zero_arith)
qed

lemma scale_loop_c_zero:
  assumes "0 \<le> len" "len mod 4 = 0" "len \<le> INT_MAX"
    and "h v = replicate (nat len) pos_zero"
  shows "for_loop 4 0 len (scale_body_c ieee v (f32x4_splat (infinity False))) h
           = Inr (h(v := replicate (nat len) quiet_nan))"
proof -
  let ?I = "\<lambda>j u. length (u v) = nat len \<and>
                 (\<forall>k < nat len. u v ! k = (if int k < j then quiet_nan else pos_zero)) \<and>
                 (\<forall>p. p \<noteq> v \<longrightarrow> u p = h p)"
  have "\<exists>t. for_loop 4 0 len (scale_body_c ieee v (f32x4_splat (infinity False))) h = Inr t
          \<and> ?I len t"
  proof (rule for_loop_total[where I = ?I])
    show "?I 0 h" using assms(4) by simp
  next
    fix j and u :: "f32 heap"
    assume j: "0 \<le> j" "j < len" "(len - j) mod 4 = 0" and u: "?I j u"
    have r: "j + 3 < len" using j by (rule lane_group_in_range)
    obtain n where n: "j = int n" using j(1) by (metis nat_0_le)
    have in_range: "n + 3 < nat len" using r n by linarith
    have ld: "v128_load u v j = Inr (pos_zero, pos_zero, pos_zero, pos_zero)"
      using u r n in_range by (simp add: v128_load_def nat_add_distrib)
    let ?w = "(u v)[n := quiet_nan, n + 1 := quiet_nan, n + 2 := quiet_nan, n + 3 := quiet_nan]"
    have st: "scale_body_c ieee v (f32x4_splat (infinity False)) j u = Inr (u(v := ?w))"
      using ld u r n in_range
      by (simp add: scale_body_c_def bind_def f32x4_splat_def f32x4_mul_def v128_store_def
          zero_arith nat_add_distrib)
    have "?I (j + 4) (u(v := ?w))"
      using u n in_range by (auto simp: nth_list_update)
    then show "\<exists>u'. scale_body_c ieee v (f32x4_splat (infinity False)) j u = Inr u' \<and>
                 ?I (j + 4) u'"
      using st by blast
  qed (use assms in simp_all)
  then obtain t where t: "for_loop 4 0 len (scale_body_c ieee v (f32x4_splat (infinity False))) h
      = Inr t" and I: "?I len t" by blast
  have "t v = replicate (nat len) quiet_nan"
    using I by (intro nth_equalityI) auto
  then have "t = h(v := replicate (nat len) quiet_nan)"
    using I by (intro ext) auto
  then show ?thesis using t by simp
qed

text \<open>
  Claim C1.  For a buffer of \<open>len\<close> zeros, \<open>len\<close> positive and a multiple of 4,
  \<open>normalize\<close> of vector\_simd.cpp skips the scaling and returns the memory unchanged,
  while \<open>normalize\<close> of vector\_simd.c overwrites every element with a NaN.  The two
  results differ.
\<close>

theorem zero_norm_guard_differs:
  assumes "0 < len" and "len mod 4 = 0" and "len \<le> INT_MAX"
    and "h v = replicate (nat len) pos_zero"
  shows "normalize_cpp ieee h v len = Inr h \<and>
         normalize_c ieee h v len = Inr (h(v := replicate (nat len) quiet_nan)) \<and>
         is_nan quiet_nan \<and>
         normalize_c ieee h v len \<noteq> normalize_cpp ieee h v len"
proof -
  have le: "0 \<le> len" using assms(1) by simp
  have cpp: "normalize_cpp ieee h v len = Inr h"
    using norm_cpp_zero[of len h v] le assms
    by (simp add: normalize_cpp_def bind_def zero_arith)
  have c: "normalize_c ieee h v len = Inr (h(v := replicate (nat len) quiet_nan))"
    using norm_c_zero[of len h v] scale_loop_c_zero[of len h v] le assms
    by (simp add: normalize_c_def bind_def zero_arith)
  have "replicate (nat len) quiet_nan \<noteq> replicate (nat len) pos_zero"
    using assms(1) by (cases "nat len") (simp_all add: quiet_nan_def pos_zero_def)
  then have "h(v := replicate (nat len) quiet_nan) \<noteq> h"
    using assms(4) by (metis fun_upd_same)
  then show ?thesis using c cpp by (simp add: nan_not_finite)
qed

theorem zero_norm_guard_differs_witness:
  "(0::int) < 4 \<and> (4::int) mod 4 = 0 \<and> (4::int) \<le> INT_MAX \<and>
   memory (map f32_of_int [0, 0, 0, 0]) [] 0 = replicate (nat 4) pos_zero \<and>
   normalize_cpp ieee (memory (map f32_of_int [0, 0, 0, 0]) []) 0 4
     = Inr (memory (map f32_of_int [0, 0, 0, 0]) []) \<and>
   normalize_c ieee (memory (map f32_of_int [0, 0, 0, 0]) []) 0 4
     = Inr (memory [quiet_nan, quiet_nan, quiet_nan, quiet_nan] [])"
proof -
  have h: "memory (map f32_of_int [0, 0, 0, 0]) [] 0 = replicate (nat 4) pos_zero"
    by (simp add: f32_of_int_values numeral_eq_Suc)
  have "(0::int) < 4" "(4::int) mod 4 = 0" "(4::int) \<le> INT_MAX"
    by (simp_all add: INT_MAX_def)
  from zero_norm_guard_differs [of 4 "memory (map f32_of_int [0, 0, 0, 0]) []" 0] this h
  show ?thesis
    by (simp add: INT_MAX_def numeral_eq_Suc f32_of_int_values)
qed

section \<open>The zero vector in cosineSimilarity\<close>

text \<open>
  A product with a zero is a zero, or a NaN when the other factor is an infinity or a
  NaN.  A sum of such values is again a zero or a NaN, and the quotient of two of them is
  a NaN.
\<close>

lemma not_nan_zero: "is_zero x \<Longrightarrow> \<not> is_nan x" "is_zero x \<Longrightarrow> \<not> is_inf x"
  by (simp_all add: is_zero_def is_nan_def is_inf_def)

lemma mant_zero: "is_zero x \<Longrightarrow> mant x = 0"
  by (simp add: is_zero_def mant_def)

lemma zero_or_nan_simps [simp]:
  "zero_or_nan pos_zero" "zero_or_nan neg_zero" "zero_or_nan quiet_nan"
  "zero_or_nan (F32 s 0 0)" "zero_or_nan (quieted x)"
  by (simp_all add: zero_or_nan_def is_nan_def is_zero_def pos_zero_def neg_zero_def
      quiet_nan_def quieted_def or_eq_0_iff)

lemma fmul_zero_left: "is_zero x \<Longrightarrow> zero_or_nan (fmul x y)"
  by (simp add: fmul_def not_nan_zero mant_zero fround_def)

lemma fmul_zero_right: "is_zero y \<Longrightarrow> zero_or_nan (fmul x y)"
  by (simp add: fmul_def not_nan_zero mant_zero fround_def)

lemma fmul_zero_finite: "is_zero x \<Longrightarrow> is_finite y \<Longrightarrow> is_zero (fmul x y)"
  by (simp add: fmul_def not_nan_zero mant_zero fround_def is_finite_def is_nan_def
      is_inf_def is_zero_def)

lemma fmul_zero_not_finite:
  assumes "is_zero x" and "\<not> is_finite y"
  shows "is_nan (fmul x y)"
proof (cases "is_nan y")
  case True
  then show ?thesis by (rule nan_operand)
next
  case False
  then have "is_inf y" using assms(2) by (simp add: is_finite_def is_inf_def is_nan_def)
  then have "fmul x y = quiet_nan" using assms(1) False by (simp add: fmul_def not_nan_zero)
  then show ?thesis by (simp add: nan_not_finite)
qed

lemma nan_is_not_finite: "is_nan x \<Longrightarrow> \<not> is_finite x"
  by (simp add: is_nan_def is_finite_def)

lemma is_zero_pos_zero [simp]: "is_zero pos_zero" "is_zero neg_zero"
  by (simp_all add: f32_eval)

lemma fadd_zero_or_nan:
  assumes "zero_or_nan x" and "zero_or_nan y"
  shows "zero_or_nan (fadd x y)"
proof (cases "is_nan x \<or> is_nan y")
  case True
  then have "is_nan (fadd x y)" by (auto simp: nan_operand)
  then show ?thesis by (simp add: zero_or_nan_def)
next
  case False
  then have z: "is_zero x" "is_zero y" using assms by (auto simp: zero_or_nan_def)
  have "fadd x y = add_at x y (min (expn x) (expn y))"
    using False z by (simp add: fadd_def not_nan_zero)
  also have "\<dots> = (if sign x \<and> sign y then neg_zero else pos_zero)"
    using z by (simp add: add_at_def signed_mant_def mant_zero round_sum_def)
  finally show ?thesis by simp
qed

lemma fdiv_zero_or_nan: "zero_or_nan x \<Longrightarrow> zero_or_nan y \<Longrightarrow> is_nan (fdiv x y)"
  by (auto simp: zero_or_nan_def fdiv_def not_nan_zero nan_not_finite)

lemma lane_sum_zero_or_nan:
  assumes "zero_or_nan d0" "zero_or_nan d1" "zero_or_nan d2" "zero_or_nan d3"
  shows "zero_or_nan (lane_sum ieee (d0, d1, d2, d3))"
  using assms by (simp add: lane_sum_def fadd_zero_or_nan)

lemma cosine_sums_cpp_zero:
  assumes "0 \<le> len" "len \<le> INT_MAX"
    and "h a = replicate (nat len) pos_zero" and "length (h b) = nat len"
  shows "\<exists>d nb. cosine_sums_cpp ieee h a b len = Inr (h, d, pos_zero, nb) \<and> zero_or_nan d"
proof -
  let ?I = "\<lambda>(j::int) st. case st of (h', d, na, nb) \<Rightarrow>
              h' = h \<and> zero_or_nan d \<and> na = pos_zero"
  have "\<exists>t. for_loop 1 0 len (cosine_body_cpp ieee a b) (h, pos_zero, pos_zero, pos_zero) = Inr t
          \<and> ?I len t"
  proof (rule for_loop_total[where I = ?I])
    fix j and u :: "f32 heap \<times> f32 \<times> f32 \<times> f32"
    assume j: "0 \<le> j" "j < len" and u: "?I j u"
    obtain d nb where u': "u = (h, d, pos_zero, nb)" and d: "zero_or_nan d"
      using u by (cases u) auto
    have la: "load h a j = Inr pos_zero"
      using assms(3) j by (intro load_replicate[where n = "nat len"]) simp_all
    have lb: "load h b j = Inr (h b ! nat j)"
      using assms(4) j by (simp add: load_def)
    have "zero_or_nan (fadd d (fmul pos_zero (h b ! nat j)))"
      by (intro fadd_zero_or_nan d fmul_zero_left) simp
    then show "\<exists>u'. cosine_body_cpp ieee a b j u = Inr u' \<and> ?I (j + 1) u'"
      using u' la lb by (simp add: cosine_body_cpp_def bind_def zero_arith)
  qed (use assms in simp_all)
  then show ?thesis by (auto simp: cosine_sums_cpp_def)
qed

lemma cosine_sums_c_zero:
  assumes "0 \<le> len" "len mod 4 = 0" "len \<le> INT_MAX"
    and "h a = replicate (nat len) pos_zero" and "length (h b) = nat len"
  shows "\<exists>d nb. cosine_sums_c ieee h a b len = Inr (h, d, pos_zero, nb) \<and> zero_or_nan d"
proof -
  let ?I = "\<lambda>(j::int) st. case st of (h', (d0, d1, d2, d3), na, nb) \<Rightarrow>
              h' = h \<and> zero_or_nan d0 \<and> zero_or_nan d1 \<and> zero_or_nan d2 \<and> zero_or_nan d3 \<and>
              na = f32x4_splat pos_zero"
  let ?z = "f32x4_splat pos_zero"
  have "\<exists>t. for_loop 4 0 len (cosine_body_c ieee a b) (h, ?z, ?z, ?z) = Inr t \<and> ?I len t"
  proof (rule for_loop_total[where I = ?I])
    show "?I 0 (h, ?z, ?z, ?z)" by (simp add: f32x4_splat_def)
  next
    fix j and u :: "f32 heap \<times> f32 v128 \<times> f32 v128 \<times> f32 v128"
    assume j: "0 \<le> j" "j < len" "(len - j) mod 4 = 0" and u: "?I j u"
    have r: "j + 3 < len" using j by (rule lane_group_in_range)
    obtain d0 d1 d2 d3 nb where u': "u = (h, (d0, d1, d2, d3), ?z, nb)"
      and d: "zero_or_nan d0" "zero_or_nan d1" "zero_or_nan d2" "zero_or_nan d3"
      using u by (cases u) auto
    have la: "v128_load h a j = Inr (pos_zero, pos_zero, pos_zero, pos_zero)"
      using assms(4) j(1) r by (intro v128_load_replicate[where n = "nat len"]) simp_all
    obtain y0 y1 y2 y3 where lb: "v128_load h b j = Inr (y0, y1, y2, y3)"
      using assms(5) j(1) r by (simp add: v128_load_def)
    have z: "is_zero pos_zero" by simp
    have "zero_or_nan (fadd d0 (fmul pos_zero y0))" "zero_or_nan (fadd d1 (fmul pos_zero y1))"
      "zero_or_nan (fadd d2 (fmul pos_zero y2))" "zero_or_nan (fadd d3 (fmul pos_zero y3))"
      by (intro fadd_zero_or_nan d fmul_zero_left z)+
    then show "\<exists>u'. cosine_body_c ieee a b j u = Inr u' \<and> ?I (j + 4) u'"
      using u' la lb
      by (simp add: cosine_body_c_def bind_def f32x4_add_def f32x4_mul_def f32x4_splat_def
          zero_arith)
  qed (use assms in simp_all)
  then obtain d0 d1 d2 d3 nb where
    "for_loop 4 0 len (cosine_body_c ieee a b) (h, ?z, ?z, ?z) = Inr (h, (d0, d1, d2, d3), ?z, nb)"
    and d: "zero_or_nan d0" "zero_or_nan d1" "zero_or_nan d2" "zero_or_nan d3"
    by (auto split: prod.splits)
  then show ?thesis
    using lane_sum_zero_or_nan[OF d]
    by (simp add: cosine_sums_c_def bind_def) (simp add: lane_sum_def f32x4_splat_def zero_arith)
qed

lemma zero_denominator:
  "zero_or_nan (cosine_denominator ieee pos_zero nb)"
  "is_finite (fsqrt nb) \<Longrightarrow> is_zero (cosine_denominator ieee pos_zero nb)"
  "\<not> is_finite (fsqrt nb) \<Longrightarrow> is_nan (cosine_denominator ieee pos_zero nb)"
proof -
  have d: "cosine_denominator ieee pos_zero nb = fmul pos_zero (fsqrt nb)"
    by (simp add: cosine_denominator_def zero_arith)
  show "zero_or_nan (cosine_denominator ieee pos_zero nb)"
    unfolding d by (rule fmul_zero_left) simp
  show "is_zero (cosine_denominator ieee pos_zero nb)" if "is_finite (fsqrt nb)"
    unfolding d using that by (intro fmul_zero_finite) simp_all
  show "is_nan (cosine_denominator ieee pos_zero nb)" if "\<not> is_finite (fsqrt nb)"
    unfolding d using that by (intro fmul_zero_not_finite) simp_all
qed

text \<open>
  Claim C4, as amended.  When one input of \<open>cosineSimilarity\<close> is a buffer of \<open>len\<close>
  zeros (\<open>len\<close> positive, and a multiple of 4 for vector\_simd.c) and the other is any
  buffer of \<open>len\<close> floats, the call signals no error and returns a NaN, in either
  argument order and in both kernels.  The denominator of the division is a zero when the
  square root of the other vector's sum of squares is finite, and a NaN otherwise.
\<close>

theorem zero_vector_similarity:
  assumes "0 < len" and "len \<le> INT_MAX"
    and "h a = replicate (nat len) pos_zero" and "length (h b) = nat len"
  shows "(\<exists>r. cosineSimilarity_cpp ieee h a b len = Inr (r, h) \<and> is_nan r \<and> \<not> is_finite r) \<and>
         (\<exists>r. cosineSimilarity_cpp ieee h b a len = Inr (r, h) \<and> is_nan r \<and> \<not> is_finite r) \<and>
         (len mod 4 = 0 \<longrightarrow>
            (\<exists>r. cosineSimilarity_c ieee h a b len = Inr (r, h) \<and> is_nan r \<and> \<not> is_finite r) \<and>
            (\<exists>r. cosineSimilarity_c ieee h b a len = Inr (r, h) \<and> is_nan r \<and> \<not> is_finite r)) \<and>
         (\<exists>d nb. cosine_sums_cpp ieee h a b len = Inr (h, d, pos_zero, nb) \<and>
            (is_finite (fsqrt nb) \<longrightarrow> is_zero (cosine_denominator ieee pos_zero nb)) \<and>
            (\<not> is_finite (fsqrt nb) \<longrightarrow> is_nan (cosine_denominator ieee pos_zero nb))) \<and>
         (len mod 4 = 0 \<longrightarrow>
            (\<exists>d nb. cosine_sums_c ieee h a b len = Inr (h, d, pos_zero, nb) \<and>
               (is_finite (fsqrt nb) \<longrightarrow> is_zero (cosine_denominator ieee pos_zero nb)) \<and>
               (\<not> is_finite (fsqrt nb) \<longrightarrow> is_nan (cosine_denominator ieee pos_zero nb))))"
proof -
  have le: "0 \<le> len" using assms(1) by simp
  obtain d nb where s: "cosine_sums_cpp ieee h a b len = Inr (h, d, pos_zero, nb)"
    and d: "zero_or_nan d"
    using cosine_sums_cpp_zero[of len h a b] le assms by blast
  define r where "r = fdiv d (cosine_denominator ieee pos_zero nb)"
  have r: "is_nan r" unfolding r_def using d zero_denominator(1) by (rule fdiv_zero_or_nan)
  have cpp: "cosineSimilarity_cpp ieee h a b len = Inr (r, h)"
    using s by (simp add: cosineSimilarity_cpp_def bind_def r_def)
  have cpp': "\<exists>r'. cosineSimilarity_cpp ieee h b a len = Inr (r', h) \<and> is_nan r'"
    using cpp r by (rule nan_either_order_cpp)
  have c: "(\<exists>r. cosineSimilarity_c ieee h a b len = Inr (r, h) \<and> is_nan r \<and> \<not> is_finite r) \<and>
    (\<exists>r. cosineSimilarity_c ieee h b a len = Inr (r, h) \<and> is_nan r \<and> \<not> is_finite r) \<and>
    (\<exists>d nb. cosine_sums_c ieee h a b len = Inr (h, d, pos_zero, nb) \<and>
       (is_finite (fsqrt nb) \<longrightarrow> is_zero (cosine_denominator ieee pos_zero nb)) \<and>
       (\<not> is_finite (fsqrt nb) \<longrightarrow> is_nan (cosine_denominator ieee pos_zero nb)))"
    if m: "len mod 4 = 0"
  proof -
    obtain d' nb' where s': "cosine_sums_c ieee h a b len = Inr (h, d', pos_zero, nb')"
      and d': "zero_or_nan d'"
      using cosine_sums_c_zero[of len h a b] le m assms by blast
    define r' where "r' = fdiv d' (cosine_denominator ieee pos_zero nb')"
    have r': "is_nan r'"
      unfolding r'_def using d' zero_denominator(1) by (rule fdiv_zero_or_nan)
    have e: "cosineSimilarity_c ieee h a b len = Inr (r', h)"
      using s' by (simp add: cosineSimilarity_c_def bind_def r'_def)
    have "\<exists>r. cosineSimilarity_c ieee h b a len = Inr (r, h) \<and> is_nan r"
      using e r' by (rule nan_either_order_c)
    then show ?thesis using e r' s' zero_denominator(2,3) nan_is_not_finite by blast
  qed
  have 1: "\<exists>r. cosineSimilarity_cpp ieee h a b len = Inr (r, h) \<and> is_nan r \<and> \<not> is_finite r"
    using cpp r nan_is_not_finite by blast
  have 2: "\<exists>r. cosineSimilarity_cpp ieee h b a len = Inr (r, h) \<and> is_nan r \<and> \<not> is_finite r"
    using cpp' nan_is_not_finite by blast
  have 3: "\<exists>d nb. cosine_sums_cpp ieee h a b len = Inr (h, d, pos_zero, nb) \<and>
            (is_finite (fsqrt nb) \<longrightarrow> is_zero (cosine_denominator ieee pos_zero nb)) \<and>
            (\<not> is_finite (fsqrt nb) \<longrightarrow> is_nan (cosine_denominator ieee pos_zero nb))"
    using s zero_denominator(2,3)[of nb] by blast
  show ?thesis using 1 2 3 c by simp
qed

text \<open>
  The denominator is not always 0: against \<open>b = [2^64, 0, 0, 0]\<close>, a finite vector, the
  sum of squares of \<open>b\<close> overflows to infinity and the denominator \<open>0 * infinity\<close> is a
  NaN.
\<close>

theorem zero_vector_denominator_counterexample:
  "is_finite (F32 False 191 0) \<and>
   cosine_sums_c ieee
     (memory (map f32_of_int [0, 0, 0, 0]) [F32 False 191 0, pos_zero, pos_zero, pos_zero]) 0 1 4
     = Inr (memory (map f32_of_int [0, 0, 0, 0]) [F32 False 191 0, pos_zero, pos_zero, pos_zero],
            pos_zero, pos_zero, infinity False) \<and>
   cosine_sums_cpp ieee
     (memory (map f32_of_int [0, 0, 0, 0]) [F32 False 191 0, pos_zero, pos_zero, pos_zero]) 0 1 4
     = Inr (memory (map f32_of_int [0, 0, 0, 0]) [F32 False 191 0, pos_zero, pos_zero, pos_zero],
            pos_zero, pos_zero, infinity False) \<and>
   cosine_denominator ieee pos_zero (infinity False) = quiet_nan \<and>
   \<not> is_zero quiet_nan"
  by (simp add: f32_of_int_values kernel_eval f32_eval)

theorem zero_vector_similarity_witness:
  "(0::int) < 4 \<and> (4::int) \<le> INT_MAX \<and>
   memory (map f32_of_int [0, 0, 0, 0]) (map f32_of_int [0, 1, 0, 0]) 0
     = replicate (nat 4) pos_zero \<and>
   length (memory (map f32_of_int [0, 0, 0, 0]) (map f32_of_int [0, 1, 0, 0]) 1) = nat 4 \<and>
   (4::int) mod 4 = 0 \<and>
   (\<exists>r. cosineSimilarity_cpp ieee
          (memory (map f32_of_int [0, 0, 0, 0]) (map f32_of_int [0, 1, 0, 0])) 0 1 4
        = Inr (r, memory (map f32_of_int [0, 0, 0, 0]) (map f32_of_int [0, 1, 0, 0])) \<and>
        is_nan r \<and> \<not> is_finite r) \<and>
   (\<exists>r. cosineSimilarity_c ieee
          (memory (map f32_of_int [0, 0, 0, 0]) (map f32_of_int [0, 1, 0, 0])) 1 0 4
        = Inr (r, memory (map f32_of_int [0, 0, 0, 0]) (map f32_of_int [0, 1, 0, 0])) \<and>
        is_nan r \<and> \<not> is_finite r) \<and>
   cosineSimilarity_cpp ieee
          (memory (map f32_of_int [0, 0, 0, 0]) (map f32_of_int [0, 1, 0, 0])) 0 1 4
     = Inr (quiet_nan, memory (map f32_of_int [0, 0, 0, 0]) (map f32_of_int [0, 1, 0, 0]))"
proof -
  have h: "memory (map f32_of_int [0, 0, 0, 0]) (map f32_of_int [0, 1, 0, 0]) 0
      = replicate (nat 4) pos_zero"
    "length (memory (map f32_of_int [0, 0, 0, 0]) (map f32_of_int [0, 1, 0, 0]) 1) = nat 4"
    by (simp_all add: f32_of_int_values numeral_eq_Suc)
  have n: "(0::int) < 4" "(4::int) \<le> INT_MAX" "(4::int) mod 4 = 0"
    by (simp_all add: INT_MAX_def)
  have e: "cosineSimilarity_cpp ieee
          (memory (map f32_of_int [0, 0, 0, 0]) (map f32_of_int [0, 1, 0, 0])) 0 1 4
     = Inr (quiet_nan, memory (map f32_of_int [0, 0, 0, 0]) (map f32_of_int [0, 1, 0, 0]))"
    by (simp add: f32_of_int_values kernel_eval f32_eval)
  from zero_vector_similarity
    [of 4 "memory (map f32_of_int [0, 0, 0, 0]) (map f32_of_int [0, 1, 0, 0])" 0 1,
     OF n(1,2) h] n(3)
  have "(\<exists>r. cosineSimilarity_cpp ieee
          (memory (map f32_of_int [0, 0, 0, 0]) (map f32_of_int [0, 1, 0, 0])) 0 1 4
        = Inr (r, memory (map f32_of_int [0, 0, 0, 0]) (map f32_of_int [0, 1, 0, 0])) \<and>
        is_nan r \<and> \<not> is_finite r) \<and>
   (\<exists>r. cosineSimilarity_c ieee
          (memory (map f32_of_int [0, 0, 0, 0]) (map f32_of_int [0, 1, 0, 0])) 1 0 4
        = Inr (r, memory (map f32_of_int [0, 0, 0, 0]) (map f32_of_int [0, 1, 0, 0])) \<and>
        is_nan r \<and> \<not> is_finite r)"
    by blast
  then show ?thesis using n h e by blast
qed

section \<open>Sign and zero of the distance\<close>

text \<open>
  Rounding keeps the sign it is given.  The square of a float that is not a NaN has the
  sign bit clear, a sum of two values with the sign bit clear has it clear, and so has the
  square root of such a value.  A NaN operand makes the result a NaN, whose sign bit may
  be set.  So squares, their sums and the square roots of these are NaNs or have the sign
  bit clear, and such a value does not compare below zero.  The difference of a finite
  float and itself is \<open>+0\<close>.
\<close>

lemma sign_pack: "sign (pack s m e) = s"
  by (simp add: pack_def infinity_def)

lemma sign_fround: "sign (fround s M E) = s"
  by (simp add: fround_def round_at_def renorm_def sign_pack)

lemma sign_special [simp]:
  "sign quiet_nan" "\<not> sign pos_zero" "sign (infinity s) = s" "sign (quieted x) = sign x"
  by (simp_all add: quiet_nan_def pos_zero_def infinity_def quieted_def)

lemma sign_fmul_self: "\<not> is_nan x \<Longrightarrow> \<not> sign (fmul x x)"
  by (simp add: fmul_def sign_fround is_inf_def is_zero_def)

lemma sign_fadd:
  assumes "\<not> sign x" and "\<not> sign y"
  shows "\<not> sign (fadd x y)"
proof -
  have "\<not> sign (add_at x y e)" for e
  proof -
    have "0 \<le> signed_mant x * 2 ^ nat (expn x - e) + signed_mant y * 2 ^ nat (expn y - e)"
      using assms by (simp add: signed_mant_def)
    then show ?thesis
      using assms by (simp add: add_at_def round_sum_def sign_fround)
  qed
  then show ?thesis using assms by (simp add: fadd_def)
qed

lemma sign_fsqrt: "\<not> sign x \<Longrightarrow> \<not> sign (fsqrt x)"
  by (simp add: fsqrt_def sqrt_at_def sign_fround)

lemma not_negative_simps [simp]: "not_negative pos_zero" "not_negative quiet_nan"
  by (simp_all add: not_negative_def nan_not_finite)

lemma not_negative_fmul_self: "not_negative (fmul x x)"
  using sign_fmul_self[of x] nan_operand(5)[of x x] by (auto simp: not_negative_def)

lemma not_negative_fadd:
  assumes "not_negative x" and "not_negative y"
  shows "not_negative (fadd x y)"
proof (cases "is_nan x \<or> is_nan y")
  case True
  then have "is_nan (fadd x y)" by (auto simp: nan_operand)
  then show ?thesis by (simp add: not_negative_def)
next
  case False
  then have "\<not> sign x" "\<not> sign y" using assms by (auto simp: not_negative_def)
  then show ?thesis by (simp add: not_negative_def sign_fadd)
qed

lemma not_negative_fsqrt:
  assumes "not_negative x"
  shows "not_negative (fsqrt x)"
proof (cases "is_nan x")
  case True
  then have "is_nan (fsqrt x)" by (rule nan_operand)
  then show ?thesis by (simp add: not_negative_def)
next
  case False
  then have "\<not> sign x" using assms by (auto simp: not_negative_def)
  then show ?thesis by (simp add: not_negative_def sign_fsqrt)
qed

lemma not_below_zero:
  assumes "not_negative x"
  shows "\<not> fgt pos_zero x"
proof (cases "is_nan x")
  case True
  then show ?thesis by (simp add: fgt_def)
next
  case False
  then have "\<not> sign x" using assms by (auto simp: not_negative_def)
  then have "0 \<le> order_key x" by (simp add: order_key_def)
  moreover have "order_key pos_zero = 0" by (simp add: order_key_def pos_zero_def)
  ultimately show ?thesis by (simp add: fgt_def)
qed

lemma fsub_self:
  assumes "is_finite x"
  shows "fsub x x = pos_zero"
proof -
  have n: "\<not> is_nan x" "\<not> is_inf x" "\<not> is_nan (fneg x)" "\<not> is_inf (fneg x)"
    using assms by (simp_all add: is_finite_def is_nan_def is_inf_def fneg_def)
  have "signed_mant (fneg x) = - signed_mant x" "expn (fneg x) = expn x"
    by (simp_all add: signed_mant_def fneg_def mant_def expn_def)
  then have "add_at x (fneg x) e = pos_zero" for e
    by (simp add: add_at_def round_sum_def fneg_def)
  then show ?thesis using n by (simp add: fsub_def fadd_def)
qed

lemma square_step:
  "not_negative acc \<Longrightarrow> not_negative (fadd acc (fmul d d))"
  by (intro not_negative_fadd not_negative_fmul_self)

lemma euclidean_loop_cpp_sign:
  assumes "0 \<le> len" "len \<le> INT_MAX"
    and "length (h a) = nat len" and "length (h b) = nat len"
  shows "\<exists>acc. for_loop 1 0 len (euclidean_body_cpp ieee a b) (h, pos_zero) = Inr (h, acc) \<and>
           not_negative acc \<and> (h a = h b \<and> (\<forall>x \<in> set (h a). is_finite x) \<longrightarrow> acc = pos_zero)"
proof -
  let ?same = "h a = h b \<and> (\<forall>x \<in> set (h a). is_finite x)"
  let ?I = "\<lambda>(j::int) st. case st of (h', acc) \<Rightarrow>
              h' = h \<and> not_negative acc \<and> (?same \<longrightarrow> acc = pos_zero)"
  have "\<exists>t. for_loop 1 0 len (euclidean_body_cpp ieee a b) (h, pos_zero) = Inr t \<and> ?I len t"
  proof (rule for_loop_total[where I = ?I])
    fix j and u :: "f32 heap \<times> f32"
    assume j: "0 \<le> j" "j < len" and u: "?I j u"
    obtain acc where u': "u = (h, acc)" and s: "not_negative acc"
      and z: "?same \<longrightarrow> acc = pos_zero"
      using u by (cases u) auto
    have la: "load h a j = Inr (h a ! nat j)" and lb: "load h b j = Inr (h b ! nat j)"
      using assms(3,4) j by (simp_all add: load_def)
    let ?d = "fsub (h a ! nat j) (h b ! nat j)"
    have e: "euclidean_body_cpp ieee a b j u = Inr (h, fadd acc (fmul ?d ?d))"
      using u' la lb by (simp add: euclidean_body_cpp_def bind_def Let_def)
    have "fadd acc (fmul ?d ?d) = pos_zero" if "?same"
    proof -
      have "h a ! nat j \<in> set (h a)" using assms(3) j by (intro nth_mem) simp
      then have "?d = pos_zero" using that by (simp add: fsub_self)
      then show ?thesis using z that by (simp add: zero_arith)
    qed
    then show "\<exists>u'. euclidean_body_cpp ieee a b j u = Inr u' \<and> ?I (j + 1) u'"
      using e square_step[OF s] by simp
  qed (use assms in simp_all)
  then show ?thesis by auto
qed

lemma euclidean_loop_c_sign:
  assumes "0 \<le> len" "len mod 4 = 0" "len \<le> INT_MAX"
    and "length (h a) = nat len" and "length (h b) = nat len"
  shows "\<exists>s0 s1 s2 s3. for_loop 4 0 len (euclidean_body_c ieee a b) (h, f32x4_splat pos_zero)
             = Inr (h, s0, s1, s2, s3) \<and>
           not_negative s0 \<and> not_negative s1 \<and> not_negative s2 \<and> not_negative s3 \<and>
           (h a = h b \<and> (\<forall>x \<in> set (h a). is_finite x) \<longrightarrow>
              (s0, s1, s2, s3) = f32x4_splat pos_zero)"
proof -
  let ?same = "h a = h b \<and> (\<forall>x \<in> set (h a). is_finite x)"
  let ?I = "\<lambda>(j::int) st. case st of (h', s0, s1, s2, s3) \<Rightarrow>
              h' = h \<and> not_negative s0 \<and> not_negative s1 \<and> not_negative s2 \<and> not_negative s3 \<and>
              (?same \<longrightarrow> (s0, s1, s2, s3) = f32x4_splat pos_zero)"
  have "\<exists>t. for_loop 4 0 len (euclidean_body_c ieee a b) (h, f32x4_splat pos_zero) = Inr t
          \<and> ?I len t"
  proof (rule for_loop_total[where I = ?I])
    show "?I 0 (h, f32x4_splat pos_zero)" by (simp add: f32x4_splat_def)
  next
    fix j and u :: "f32 heap \<times> f32 v128"
    assume j: "0 \<le> j" "j < len" "(len - j) mod 4 = 0" and u: "?I j u"
    have r: "j + 3 < len" using j by (rule lane_group_in_range)
    obtain s0 s1 s2 s3 where u': "u = (h, s0, s1, s2, s3)"
      and s: "not_negative s0" "not_negative s1" "not_negative s2" "not_negative s3"
      and z: "?same \<longrightarrow> (s0, s1, s2, s3) = f32x4_splat pos_zero"
      using u by (cases u) auto
    obtain n where n: "j = int n" using j(1) by (metis nat_0_le)
    have in_range: "n + 3 < length (h a)" "n + 3 < length (h b)"
      using r n assms(4,5) by linarith+
    have la: "v128_load h a j = Inr (h a ! n, h a ! (n + 1), h a ! (n + 2), h a ! (n + 3))"
      and lb: "v128_load h b j = Inr (h b ! n, h b ! (n + 1), h b ! (n + 2), h b ! (n + 3))"
      using in_range n by (simp_all add: v128_load_def nat_add_distrib)
    let ?d = "\<lambda>k. fsub (h a ! (n + k)) (h b ! (n + k))"
    have e: "euclidean_body_c ieee a b j u
        = Inr (h, fadd s0 (fmul (?d 0) (?d 0)), fadd s1 (fmul (?d 1) (?d 1)),
                  fadd s2 (fmul (?d 2) (?d 2)), fadd s3 (fmul (?d 3) (?d 3)))"
      using u' la lb
      by (simp add: euclidean_body_c_def bind_def f32x4_sub_def f32x4_mul_def f32x4_add_def
          Let_def)
    have dz: "?d k = pos_zero" if "?same" "k \<le> 3" for k
    proof -
      have "h a ! (n + k) \<in> set (h a)" using in_range that(2) by (intro nth_mem) simp
      then show ?thesis using that by (simp add: fsub_self)
    qed
    have "?same \<longrightarrow> ?d 0 = pos_zero \<and> ?d 1 = pos_zero \<and> ?d 2 = pos_zero \<and> ?d 3 = pos_zero"
      using dz[of 0] dz[of 1] dz[of 2] dz[of 3] by simp
    then show "\<exists>u'. euclidean_body_c ieee a b j u = Inr u' \<and> ?I (j + 4) u'"
      using e s z square_step by (auto simp: f32x4_splat_def zero_arith)
  qed (use assms in simp_all)
  then show ?thesis by auto
qed




section \<open>Reduction order\<close>

text \<open>
  Over the real numbers both kernels compute the square root of the sum of the squared
  differences: the four lane sums of vector\_simd.c add up to the serial sum of
  vector\_simd.cpp.
\<close>

lemma sum_four_more:
  fixes f :: "nat \<Rightarrow> real"
  shows "(\<Sum>i<n + 4. f i) = (\<Sum>i<n. f i) + f n + f (n + 1) + f (n + 2) + f (n + 3)"
proof -
  have e: "n + 4 = Suc (Suc (Suc (Suc n)))" "n + 1 = Suc n" "n + 2 = Suc (Suc n)"
    "n + 3 = Suc (Suc (Suc n))"
    by simp_all
  show ?thesis unfolding e sum.lessThan_Suc by (simp add: algebra_simps)
qed

lemma euclidean_cpp_exact:
  assumes "0 \<le> len" "len \<le> INT_MAX"
    and "length (h a) = nat len" and "length (h b) = nat len"
  shows "euclideanDistance_cpp exact h a b len
           = Inr (sqrt (\<Sum>i<nat len. (h a ! i - h b ! i)\<^sup>2), h)"
proof -
  let ?S = "\<lambda>n. \<Sum>i<n. (h a ! i - h b ! i)\<^sup>2"
  let ?I = "\<lambda>(j::int) st. st = (h, ?S (nat j))"
  have "\<exists>t. for_loop 1 0 len (euclidean_body_cpp exact a b) (h, 0) = Inr t \<and> ?I len t"
  proof (rule for_loop_total[where I = ?I])
    fix j and u :: "real heap \<times> real"
    assume j: "0 \<le> j" "j < len" and u: "?I j u"
    have la: "load h a j = Inr (h a ! nat j)" and lb: "load h b j = Inr (h b ! nat j)"
      using assms(3,4) j by (simp_all add: load_def)
    have "nat (j + 1) = Suc (nat j)" using j(1) by simp
    then show "\<exists>u'. euclidean_body_cpp exact a b j u = Inr u' \<and> ?I (j + 1) u'"
      using u la lb by (simp add: euclidean_body_cpp_def bind_def Let_def power2_eq_square)
  qed (use assms in simp_all)
  then show ?thesis by (simp add: euclideanDistance_cpp_def bind_def)
qed

lemma euclidean_c_exact:
  assumes "0 \<le> len" "len mod 4 = 0" "len \<le> INT_MAX"
    and "length (h a) = nat len" and "length (h b) = nat len"
  shows "euclideanDistance_c exact h a b len
           = Inr (sqrt (\<Sum>i<nat len. (h a ! i - h b ! i)\<^sup>2), h)"
proof -
  let ?S = "\<lambda>n. \<Sum>i<n. (h a ! i - h b ! i)\<^sup>2"
  let ?I = "\<lambda>(j::int) st. case st of (h', s0, s1, s2, s3) \<Rightarrow>
              h' = h \<and> s0 + s1 + s2 + s3 = ?S (nat j)"
  have "\<exists>t. for_loop 4 0 len (euclidean_body_c exact a b) (h, f32x4_splat 0) = Inr t \<and> ?I len t"
  proof (rule for_loop_total[where I = ?I])
    show "?I 0 (h, f32x4_splat 0)" by (simp add: f32x4_splat_def)
  next
    fix j and u :: "real heap \<times> real v128"
    assume j: "0 \<le> j" "j < len" "(len - j) mod 4 = 0" and u: "?I j u"
    have r: "j + 3 < len" using j by (rule lane_group_in_range)
    obtain s0 s1 s2 s3 where u': "u = (h, s0, s1, s2, s3)"
      and s: "s0 + s1 + s2 + s3 = ?S (nat j)"
      using u by (cases u) auto
    obtain n where n: "j = int n" using j(1) by (metis nat_0_le)
    have in_range: "n + 3 < length (h a)" "n + 3 < length (h b)"
      using r n assms(4,5) by linarith+
    have la: "v128_load h a j = Inr (h a ! n, h a ! (n + 1), h a ! (n + 2), h a ! (n + 3))"
      and lb: "v128_load h b j = Inr (h b ! n, h b ! (n + 1), h b ! (n + 2), h b ! (n + 3))"
      using in_range n by (simp_all add: v128_load_def nat_add_distrib)
    let ?d = "\<lambda>k. h a ! (n + k) - h b ! (n + k)"
    have e: "euclidean_body_c exact a b j u
        = Inr (h, s0 + ?d 0 * ?d 0, s1 + ?d 1 * ?d 1, s2 + ?d 2 * ?d 2, s3 + ?d 3 * ?d 3)"
      using u' la lb
      by (simp add: euclidean_body_c_def bind_def f32x4_sub_def f32x4_mul_def f32x4_add_def
          Let_def)
    have "?S (n + 4) = ?S n + (?d 0)\<^sup>2 + (?d 1)\<^sup>2 + (?d 2)\<^sup>2 + (?d 3)\<^sup>2"
      using sum_four_more[of "\<lambda>i. (h a ! i - h b ! i)\<^sup>2" n] by simp
    also have "\<dots> = (s0 + ?d 0 * ?d 0) + (s1 + ?d 1 * ?d 1) + (s2 + ?d 2 * ?d 2)
        + (s3 + ?d 3 * ?d 3)"
      using s n by (simp add: power2_eq_square)
    finally have "?I (j + 4) (h, s0 + ?d 0 * ?d 0, s1 + ?d 1 * ?d 1, s2 + ?d 2 * ?d 2,
        s3 + ?d 3 * ?d 3)"
      using n by (simp add: nat_add_distrib)
    then show "\<exists>u'. euclidean_body_c exact a b j u = Inr u' \<and> ?I (j + 4) u'"
      using e by blast
  qed (use assms in simp_all)
  then obtain s0 s1 s2 s3 where
    "for_loop 4 0 len (euclidean_body_c exact a b) (h, f32x4_splat 0) = Inr (h, s0, s1, s2, s3)"
    and "s0 + s1 + s2 + s3 = ?S (nat len)"
    by (auto split: prod.splits)
  then show ?thesis by (simp add: euclideanDistance_c_def bind_def lane_sum_def)
qed

text \<open>
  Claim C8.  On \<open>a = [4096, 0, 1, 3, 1, 0, 1, 2]\<close> and \<open>b\<close> all zero, of length 8,
  \<open>euclideanDistance\<close> of vector\_simd.c returns \<open>4096 + 4 * 2^-11\<close> and that of
  vector\_simd.cpp returns \<open>4096 + 3 * 2^-11\<close>: the lane-wise and the serial summation
  round differently.  With exact real arithmetic, for every length that is a multiple of
  4, the two kernels return the same value, the square root of the sum of the squared
  differences.
\<close>

theorem reduction_order_differs:
  "euclideanDistance_c ieee
     (memory (map f32_of_int [4096, 0, 1, 3, 1, 0, 1, 2]) (map f32_of_int [0, 0, 0, 0, 0, 0, 0, 0]))
     0 1 8
     = Inr (F32 False 139 4,
            memory (map f32_of_int [4096, 0, 1, 3, 1, 0, 1, 2])
              (map f32_of_int [0, 0, 0, 0, 0, 0, 0, 0])) \<and>
   euclideanDistance_cpp ieee
     (memory (map f32_of_int [4096, 0, 1, 3, 1, 0, 1, 2]) (map f32_of_int [0, 0, 0, 0, 0, 0, 0, 0]))
     0 1 8
     = Inr (F32 False 139 3,
            memory (map f32_of_int [4096, 0, 1, 3, 1, 0, 1, 2])
              (map f32_of_int [0, 0, 0, 0, 0, 0, 0, 0])) \<and>
   \<not> feq (F32 False 139 4) (F32 False 139 3) \<and>
   (0 \<le> len \<and> len mod 4 = 0 \<and> len \<le> INT_MAX \<and>
      length (h a) = nat len \<and> length (h b) = nat len \<longrightarrow>
      euclideanDistance_c exact h a b len
        = Inr (sqrt (\<Sum>i<nat len. (h a ! i - h b ! i)\<^sup>2), h) \<and>
      euclideanDistance_cpp exact h a b len = euclideanDistance_c exact h a b len)"
proof -
  have v: "f32_of_int 4096 = F32 False 139 0" "f32_of_int 2 = F32 False 128 0"
    by (simp_all add: f32_of_int_def f32_eval)
  have "euclideanDistance_c ieee
     (memory (map f32_of_int [4096, 0, 1, 3, 1, 0, 1, 2]) (map f32_of_int [0, 0, 0, 0, 0, 0, 0, 0]))
     0 1 8
     = Inr (F32 False 139 4,
            memory (map f32_of_int [4096, 0, 1, 3, 1, 0, 1, 2])
              (map f32_of_int [0, 0, 0, 0, 0, 0, 0, 0]))"
    by (simp add: v f32_of_int_values kernel_eval f32_eval)
  moreover have "euclideanDistance_cpp ieee
     (memory (map f32_of_int [4096, 0, 1, 3, 1, 0, 1, 2]) (map f32_of_int [0, 0, 0, 0, 0, 0, 0, 0]))
     0 1 8
     = Inr (F32 False 139 3,
            memory (map f32_of_int [4096, 0, 1, 3, 1, 0, 1, 2])
              (map f32_of_int [0, 0, 0, 0, 0, 0, 0, 0]))"
    by (simp add: v f32_of_int_values kernel_eval f32_eval)
  moreover have "\<not> feq (F32 False 139 4) (F32 False 139 3)"
    by (simp add: f32_eval)
  ultimately show ?thesis
    using euclidean_c_exact[of len h a b] euclidean_cpp_exact[of len h a b] by simp
qed

theorem reduction_order_differs_witness:
  "(0::int) \<le> 8 \<and> (8::int) mod 4 = 0 \<and> (8::int) \<le> INT_MAX \<and>
   length (memory [4096, 0, 1, 3, 1, 0, 1, 2] [0, 0, 0, 0, 0, 0, 0, 0 :: real] 0) = nat 8 \<and>
   length (memory [4096, 0, 1, 3, 1, 0, 1, 2] [0, 0, 0, 0, 0, 0, 0, 0 :: real] 1) = nat 8 \<and>
   euclideanDistance_c exact (memory [4096, 0, 1, 3, 1, 0, 1, 2] [0, 0, 0, 0, 0, 0, 0, 0]) 0 1 8
     = Inr (sqrt 16777232, memory [4096, 0, 1, 3, 1, 0, 1, 2] [0, 0, 0, 0, 0, 0, 0, 0]) \<and>
   euclideanDistance_cpp exact (memory [4096, 0, 1, 3, 1, 0, 1, 2] [0, 0, 0, 0, 0, 0, 0, 0]) 0 1 8
     = Inr (sqrt 16777232, memory [4096, 0, 1, 3, 1, 0, 1, 2] [0, 0, 0, 0, 0, 0, 0, 0])"
proof -
  let ?M = "memory [4096, 0, 1, 3, 1, 0, 1, 2] [0, 0, 0, 0, 0, 0, 0, 0 :: real]"
  have n: "(0::int) \<le> 8" "(8::int) mod 4 = 0" "(8::int) \<le> INT_MAX"
    by (simp_all add: INT_MAX_def)
  have l: "length (?M 0) = nat 8" "length (?M 1) = nat 8" by simp_all
  have s: "(\<Sum>i<nat 8. (?M 0 ! i - ?M 1 ! i)\<^sup>2) = 16777232"
    by (simp add: numeral_eq_Suc)
  from reduction_order_differs [of 8 ?M 0 1] n l
  have "euclideanDistance_c exact ?M 0 1 8
          = Inr (sqrt (\<Sum>i<nat 8. (?M 0 ! i - ?M 1 ! i)\<^sup>2), ?M)"
    and "euclideanDistance_cpp exact ?M 0 1 8 = euclideanDistance_c exact ?M 0 1 8"
    by simp_all
  then show ?thesis using n l unfolding s by simp
qed

section \<open>The rounding error of the operations\<close>

text \<open>
  The value of a rounded result: where the exact result \<open>V\<close> of a multiplication or an
  addition of finite floats lies in the range of the normal numbers, the float returned is
  finite and within \<open>V / 2^24\<close> of it; for a division or a square root, which round an
  approximation with a sticky bit, within \<open>V / 2^23\<close>.
\<close>

lemma nearest_even_cases: "nearest_even q r d = q \<or> nearest_even q r d = Suc q"
  by (simp add: nearest_even_def)

lemma round_even_cases:
  "round_even M k = M div 2 ^ k \<or> round_even M k = Suc (M div 2 ^ k)"
  unfolding round_even_def by (rule nearest_even_cases)

lemma round_even_error:
  "2 * (round_even M k * 2 ^ k) \<le> 2 * M + 2 ^ k \<and> 2 * M \<le> 2 * (round_even M k * 2 ^ k) + 2 ^ k"
proof -
  define q where "q = M div 2 ^ k"
  define r where "r = M mod 2 ^ k"
  define d :: nat where "d = 2 ^ k"
  have M: "M = q * d + r"
    unfolding q_def r_def d_def by (rule div_mult_mod_eq[symmetric])
  have r: "r < d" by (simp add: r_def d_def)
  have c: "round_even M k = q \<or> round_even M k = q + 1"
    using round_even_cases[of M k] by (simp add: q_def)
  have lo: "round_even M k = q" if "2 * r < d"
    using that by (simp add: round_even_def nearest_even_def q_def r_def d_def)
  have hi: "round_even M k = q + 1" if "d < 2 * r"
    using that by (simp add: round_even_def nearest_even_def q_def r_def d_def)
  have e: "(q + 1) * d = q * d + d" by simp
  consider "2 * r < d" | "d < 2 * r" | "2 * r = d" by linarith
  then have "2 * (round_even M k * d) \<le> 2 * M + d \<and> 2 * M \<le> 2 * (round_even M k * d) + d"
  proof cases
    case 1
    then show ?thesis using lo M by simp
  next
    case 2
    then show ?thesis using hi M r e by simp
  next
    case 3
    then show ?thesis using c M e by auto
  qed
  then show ?thesis by (simp add: d_def)
qed

lemma round_even_range:
  assumes "2 ^ (23 + k) \<le> M" and "M < 2 ^ (24 + k)"
  shows "2 ^ 23 \<le> round_even M k \<and> round_even M k \<le> 2 ^ 24"
proof -
  have "2 ^ 23 * 2 ^ k \<le> M" using assms(1) by (simp add: power_add)
  then have l: "2 ^ 23 \<le> M div 2 ^ k"
    by (simp add: less_eq_div_iff_mult_less_eq)
  have "M < 2 ^ 24 * 2 ^ k" using assms(2) by (simp add: power_add)
  then have u: "M div 2 ^ k < 2 ^ 24"
    by (simp add: less_mult_imp_div_less)
  have "round_even M k = M div 2 ^ k \<or> round_even M k = M div 2 ^ k + 1"
    using round_even_cases[of M k] by simp
  then show ?thesis using l u by auto
qed

lemma expo_of_int:
  assumes "1 \<le> k" and "k \<le> 254"
  shows "unat (word_of_int k :: 8 word) = nat k"
proof -
  have "0 \<le> k" using assms by simp
  then have "(word_of_int k :: 8 word) = of_nat (nat k)" by (rule word_of_int_nat)
  moreover have "nat k mod 2 ^ LENGTH(8) = nat k" using assms by simp
  then have "unat (of_nat (nat k) :: 8 word) = nat k"
    by (simp only: unat_of_nat)
  ultimately show ?thesis by (simp only:)
qed

lemma frac_of_nat:
  assumes "n < 8388608"
  shows "unat (of_nat n :: 23 word) = n"
proof -
  have "n mod 2 ^ LENGTH(23) = n" using assms by simp
  then show ?thesis by (simp only: unat_of_nat)
qed

lemma valof_F32_normal:
  assumes "unat ex \<noteq> 0"
  shows "valof (F32 s ex fr) =
    (if s then - 1 else 1) * real (8388608 + unat fr) * 2 powr (real (unat ex) - 150)"
proof -
  have "ex \<noteq> 0" using assms by auto
  then show ?thesis by (simp add: valof_def mant_def expn_def)
qed

lemma valof_pack:
  assumes "8388608 \<le> m" and "m < 16777216" and "- 149 \<le> e" and "e \<le> 104"
  shows "valof (pack s m e) = (if s then - 1 else 1) * real m * 2 powr real_of_int e"
    and "is_finite (pack s m e)" and "expo (pack s m e) \<noteq> 0"
proof -
  have p: "pack s m e = F32 s (word_of_int (e + 150)) (of_nat (m - 8388608))"
    using assms by (simp add: pack_def)
  have u: "unat (word_of_int (e + 150) :: 8 word) = nat (e + 150)"
    using assms by (intro expo_of_int) simp_all
  have f: "unat (of_nat (m - 8388608) :: 23 word) = m - 8388608"
    using assms by (intro frac_of_nat) simp
  have "unat (word_of_int (e + 150) :: 8 word) \<noteq> 0" using assms unfolding u by simp
  then have nz: "(word_of_int (e + 150) :: 8 word) \<noteq> 0" by auto
  show "expo (pack s m e) \<noteq> 0" using nz unfolding p by simp
  have "unat (word_of_int (e + 150) :: 8 word) \<noteq> 255" using assms unfolding u by simp
  then have "(word_of_int (e + 150) :: 8 word) \<noteq> 255" by auto
  then show "is_finite (pack s m e)" unfolding p is_finite_def by simp
  have n0: "unat (word_of_int (e + 150) :: 8 word) \<noteq> 0" using assms unfolding u by simp
  have "real (nat (e + 150)) - 150 = real_of_int e" using assms by simp
  moreover have "real (8388608 + (m - 8388608)) = real m" using assms by simp
  ultimately show "valof (pack s m e) = (if s then - 1 else 1) * real m * 2 powr real_of_int e"
    unfolding p valof_F32_normal[OF n0] u f by (simp only:)
qed

lemma two_powr_int: "0 \<le> k \<Longrightarrow> 2 powr real_of_int k = 2 ^ nat k"
  by (metis of_int_0_le_iff of_nat_nat powr_realpow zero_less_numeral of_int_of_nat_eq)

lemma two_powr_add: "2 powr (a + b) = 2 powr a * (2::real) powr b"
  by (rule powr_add)

lemma renorm_value:
  assumes "8388608 \<le> m" and "m \<le> 16777216" and "- 149 \<le> e" and "e \<le> 103"
  shows "valof (renorm s m e) = (if s then - 1 else 1) * real m * 2 powr real_of_int e"
    and "is_finite (renorm s m e)" and "expo (renorm s m e) \<noteq> 0"
proof -
  show "valof (renorm s m e) = (if s then - 1 else 1) * real m * 2 powr real_of_int e"
  proof (cases "m = 16777216")
    case True
    have "valof (pack s 8388608 (e + 1))
        = (if s then - 1 else 1) * real 8388608 * 2 powr real_of_int (e + 1)"
      using assms by (intro valof_pack) simp_all
    also have "2 powr real_of_int (e + 1) = 2 powr real_of_int e * 2"
      by (simp add: powr_add)
    finally show ?thesis using True by (simp add: renorm_def)
  next
    case False
    then show ?thesis using assms by (simp add: renorm_def valof_pack)
  qed
  show "is_finite (renorm s m e)"
    using assms by (cases "m = 16777216") (simp_all add: renorm_def valof_pack)
  show "expo (renorm s m e) \<noteq> 0"
    using assms by (cases "m = 16777216") (simp_all add: renorm_def valof_pack)
qed

lemma fround_normal:
  assumes "0 < M"
    and lo: "2 powr (- 126) \<le> real M * 2 powr real_of_int E"
    and hi: "real M * 2 powr real_of_int E < 2 powr 127"
  shows "\<exists>a. valof (fround s M E) = (if s then - 1 else 1) * a \<and>
           \<bar>a - real M * 2 powr real_of_int E\<bar> \<le> real M * 2 powr real_of_int E / 2 ^ 24"
    and "is_finite (fround s M E)" and "expo (fround s M E) \<noteq> 0"
proof -
  define n where "n = floorlog 2 M"
  define V where "V = real M * 2 powr real_of_int E"
  define e where "e = E + int n - 24"
  have b: "2 ^ (n - 1) \<le> M" "M < 2 ^ n"
    using floorlog_bounds[of M 2] assms(1) by (simp_all add: n_def)
  have n1: "1 \<le> n" using assms(1) by (simp add: n_def floorlog_def)
  have Vlo: "2 powr (real_of_int E + real n - 1) \<le> V"
  proof -
    have "2 powr (real_of_int E + real n - 1) = 2 powr real_of_int E * 2 powr real (n - 1)"
      using n1 by (simp add: powr_add[symmetric] of_nat_diff algebra_simps)
    also have "\<dots> = 2 powr real_of_int E * 2 ^ (n - 1)" by (simp add: powr_realpow)
    also have "\<dots> \<le> 2 powr real_of_int E * real M"
      using b(1) by (intro mult_left_mono) (simp_all add: numeral_power_le_of_nat_cancel_iff)
    finally show ?thesis by (simp add: V_def mult.commute)
  qed
  have Vhi: "V < 2 powr (real_of_int E + real n)"
  proof -
    have "V < 2 ^ n * 2 powr real_of_int E"
      unfolding V_def using b(2) by (intro mult_strict_right_mono) (simp_all add: of_nat_less_numeral_power_cancel_iff)
    also have "\<dots> = 2 powr (real_of_int E + real n)"
      by (simp add: powr_add powr_realpow)
    finally show ?thesis .
  qed
  have "2 powr (- 126) < (2::real) powr (real_of_int E + real n)"
    using lo Vhi unfolding V_def by linarith
  then have "- 126 < real_of_int E + real n"
    by (subst (asm) powr_less_cancel_iff) simp_all
  then have elo: "- 149 \<le> e" by (simp add: e_def)
  have "(2::real) powr (real_of_int E + real n - 1) < 2 powr 127"
    using hi Vlo unfolding V_def by linarith
  then have "real_of_int E + real n - 1 < 127"
    by (subst (asm) powr_less_cancel_iff) simp_all
  then have ehi: "e \<le> 103" by (simp add: e_def)
  have emax: "max (E + int (floorlog 2 M) - 24) (- 149) = e"
    using elo by (simp add: e_def n_def)
  define m where "m = (if e \<le> E then M * 2 ^ nat (E - e) else round_even M (nat (e - E)))"
  have fr: "fround s M E = renorm s m e"
    using assms(1) by (simp add: fround_def emax round_at_def m_def)
  have m: "8388608 \<le> m \<and> m \<le> 16777216 \<and>
           \<bar>real m * 2 powr real_of_int e - V\<bar> \<le> V / 2 ^ 24"
  proof (cases "e \<le> E")
    case True
    then have n24: "n \<le> 24" by (simp add: e_def)
    have me: "m = M * 2 ^ (24 - n)"
      using True n24 by (simp add: m_def e_def nat_diff_distrib)
    have "(2::nat) ^ 23 = 2 ^ (n - 1) * 2 ^ (24 - n)"
      using n1 n24 by (simp add: power_add[symmetric])
    also have "\<dots> \<le> M * 2 ^ (24 - n)" using b(1) by (rule mult_le_mono1)
    finally have l: "8388608 \<le> m" by (simp add: me)
    have "M * 2 ^ (24 - n) < 2 ^ n * 2 ^ (24 - n)"
      using b(2) by (intro mult_less_mono1) simp_all
    also have "(2::nat) ^ n * 2 ^ (24 - n) = 2 ^ 24"
      using n24 by (simp add: power_add[symmetric])
    finally have u: "m < 16777216" by (simp add: me)
    have "real_of_int e + real (24 - n) = real_of_int E"
      using n24 by (simp add: e_def of_nat_diff)
    then have "2 powr real_of_int e * 2 powr real (24 - n) = 2 powr real_of_int E"
      by (simp add: powr_add[symmetric])
    then have "real m * 2 powr real_of_int e = V"
      by (simp add: me V_def powr_realpow mult.assoc mult.commute)
    moreover have "0 \<le> V" by (simp add: V_def)
    ultimately show ?thesis using l u by simp
  next
    case False
    define k where "k = nat (e - E)"
    have k: "int k = int n - 24" "0 < k" using False by (simp_all add: k_def e_def)
    then have nk: "n = 24 + k" by linarith
    have mk: "m = round_even M k" using False by (simp add: m_def k_def)
    have r: "2 ^ 23 \<le> m \<and> m \<le> 2 ^ 24"
      unfolding mk using b nk k(2) by (intro round_even_range) (simp_all add: power_add)
    have err: "2 * (m * 2 ^ k) \<le> 2 * M + 2 ^ k \<and> 2 * M \<le> 2 * (m * 2 ^ k) + 2 ^ k"
      unfolding mk by (rule round_even_error)
    have "\<bar>real (m * 2 ^ k) - real M\<bar> \<le> 2 ^ k / 2"
    proof -
      define x where "x = real (m * 2 ^ k)"
      define p where "p = (2::real) ^ k"
      have "real (2 * (m * 2 ^ k)) \<le> real (2 * M + 2 ^ k)"
        and "real (2 * M) \<le> real (2 * (m * 2 ^ k) + 2 ^ k)"
        using err by (simp_all only: of_nat_le_iff)
      then have "2 * x \<le> 2 * real M + p" and "2 * real M \<le> 2 * x + p"
        by (simp_all add: x_def p_def)
      then have "\<bar>x - real M\<bar> \<le> p / 2" by linarith
      then show ?thesis by (simp only: x_def p_def)
    qed
    moreover have "(2::real) ^ k / 2 \<le> real M / 2 ^ 24"
    proof -
      have "(2::real) ^ k / 2 = 2 ^ (n - 1) / 2 ^ 24"
        using k(2) by (simp add: nk power_add power_diff)
      also have "\<dots> \<le> real M / 2 ^ 24"
        using b(1) by (intro divide_right_mono) (simp_all add: numeral_power_le_of_nat_cancel_iff)
      finally show ?thesis .
    qed
    ultimately have d: "\<bar>real (m * 2 ^ k) - real M\<bar> \<le> real M / 2 ^ 24" by linarith
    have ek: "real_of_int e = real_of_int E + real k" using False by (simp add: k_def)
    have "real m * 2 powr real_of_int e - V = (real (m * 2 ^ k) - real M) * 2 powr real_of_int E"
      by (simp add: ek powr_add powr_realpow V_def algebra_simps)
    then have "\<bar>real m * 2 powr real_of_int e - V\<bar>
        = \<bar>real (m * 2 ^ k) - real M\<bar> * 2 powr real_of_int E"
      by (simp add: abs_mult)
    also have "\<dots> \<le> real M / 2 ^ 24 * 2 powr real_of_int E"
      using d by (intro mult_right_mono) simp_all
    finally show ?thesis using r by (simp add: V_def)
  qed
  have v: "valof (fround s M E) = (if s then - 1 else 1) * real m * 2 powr real_of_int e"
    unfolding fr using m elo ehi by (intro renorm_value) simp_all
  show "\<exists>a. valof (fround s M E) = (if s then - 1 else 1) * a \<and>
           \<bar>a - real M * 2 powr real_of_int E\<bar> \<le> real M * 2 powr real_of_int E / 2 ^ 24"
    using v m by (intro exI[of _ "real m * 2 powr real_of_int e"]) (simp add: V_def mult.assoc)
  show "is_finite (fround s M E)"
    unfolding fr using m elo ehi by (intro renorm_value) simp_all
  show "expo (fround s M E) \<noteq> 0"
    unfolding fr using m elo ehi by (intro renorm_value) simp_all
qed

lemma isqrt_aux_correct:
  "r * r \<le> n \<Longrightarrow> n < (r + 2 ^ k) * (r + 2 ^ k) \<Longrightarrow>
     isqrt_aux k n r * isqrt_aux k n r \<le> n \<and> n < (isqrt_aux k n r + 1) * (isqrt_aux k n r + 1)"
proof (induction k arbitrary: r)
  case 0
  then show ?case by (simp add: isqrt_aux.simps)
next
  case (Suc k)
  define r' where "r' = isqrt_step k n r"
  have "r' * r' \<le> n" using Suc.prems(1) by (simp add: r'_def isqrt_step_def)
  moreover have "n < (r' + 2 ^ k) * (r' + 2 ^ k)"
    using Suc.prems(2) by (auto simp: r'_def isqrt_step_def algebra_simps)
  ultimately have "isqrt_aux k n r' * isqrt_aux k n r' \<le> n \<and>
      n < (isqrt_aux k n r' + 1) * (isqrt_aux k n r' + 1)"
    by (rule Suc.IH)
  moreover have "isqrt_aux (Suc k) n r = isqrt_aux k n r'"
    by (subst isqrt_aux.simps) (simp add: r'_def)
  ultimately show ?case by simp
qed

lemma isqrt_correct: "isqrt n * isqrt n \<le> n \<and> n < (isqrt n + 1) * (isqrt n + 1)"
proof -
  have "n < 2 ^ floorlog 2 n"
  proof (cases "n = 0")
    case False
    then show ?thesis using floorlog_bounds[of n 2] by simp
  qed simp
  also have "(2::nat) ^ floorlog 2 n \<le> 2 ^ floorlog 2 n * 2 ^ floorlog 2 n" by simp
  finally have "n < (0 + 2 ^ floorlog 2 n) * (0 + 2 ^ floorlog 2 n)" by simp
  then show ?thesis unfolding isqrt_def by (intro isqrt_aux_correct) simp_all
qed

lemma valof_signed: "valof x = real_of_int (signed_mant x) * 2 powr real_of_int (expn x)"
  by (simp add: valof_def signed_mant_def)

lemma abs_valof: "\<bar>valof x\<bar> = real (mant x) * 2 powr real_of_int (expn x)"
  by (simp add: valof_def abs_mult)

lemma valof_zero_iff: "valof x = 0 \<longleftrightarrow> mant x = 0"
  by (simp add: valof_def)

lemma valof_nonneg: "\<not> sign x \<Longrightarrow> 0 \<le> valof x"
  by (simp add: valof_def)

lemma valof_pos_zero [simp]: "valof pos_zero = 0" "valof (F32 s 0 0) = 0"
  by (simp_all add: valof_def mant_def pos_zero_def)

lemma finite_not_special: "is_finite x \<Longrightarrow> \<not> is_nan x \<and> \<not> is_inf x"
  by (simp add: is_finite_def is_nan_def is_inf_def)

lemma finite_special [simp]: "is_finite pos_zero" "is_finite (F32 s 0 0)"
  by (simp_all add: is_finite_def pos_zero_def)

lemma fmul_value:
  assumes "is_finite x" and "is_finite y"
    and "valof x * valof y = 0 \<or>
         (2 powr (- 126) \<le> \<bar>valof x * valof y\<bar> \<and> \<bar>valof x * valof y\<bar> < 2 powr 127)"
  shows "is_finite (fmul x y)"
    and "\<bar>valof (fmul x y) - valof x * valof y\<bar> \<le> \<bar>valof x * valof y\<bar> / 2 ^ 24"
proof -
  let ?s = "sign x \<noteq> sign y"
  let ?M = "mant x * mant y" and ?E = "expn x + expn y"
  have f: "fmul x y = fround ?s ?M ?E"
    using assms(1,2) by (simp add: fmul_def finite_not_special)
  have V: "\<bar>valof x * valof y\<bar> = real ?M * 2 powr real_of_int ?E"
    by (simp add: abs_mult abs_valof powr_add)
  have sg: "valof x * valof y = (if ?s then - 1 else 1) * \<bar>valof x * valof y\<bar>"
    by (simp add: valof_def abs_mult)
  have "is_finite (fmul x y) \<and>
        \<bar>valof (fmul x y) - valof x * valof y\<bar> \<le> \<bar>valof x * valof y\<bar> / 2 ^ 24"
  proof (cases "valof x * valof y = 0")
    case True
    then have "?M = 0" by (auto simp: valof_zero_iff)
    then have "fmul x y = F32 ?s 0 0" unfolding f by (simp add: fround_def)
    then show ?thesis using True by simp
  next
    case False
    then have M: "0 < ?M" by (auto simp: valof_zero_iff)
    have r: "2 powr (- 126) \<le> real ?M * 2 powr real_of_int ?E"
      "real ?M * 2 powr real_of_int ?E < 2 powr 127"
      using assms(3) False unfolding V by simp_all
    obtain a where a: "valof (fround ?s ?M ?E) = (if ?s then - 1 else 1) * a"
      and e: "\<bar>a - real ?M * 2 powr real_of_int ?E\<bar> \<le> real ?M * 2 powr real_of_int ?E / 2 ^ 24"
      using fround_normal(1)[OF M r] by blast
    have "valof (fmul x y) - valof x * valof y
        = (if ?s then - 1 else 1) * (a - real ?M * 2 powr real_of_int ?E)"
      unfolding f a by (subst sg) (simp add: V algebra_simps)
    then have "\<bar>valof (fmul x y) - valof x * valof y\<bar> = \<bar>a - real ?M * 2 powr real_of_int ?E\<bar>"
      by (simp add: abs_mult)
    then show ?thesis using e fround_normal(2)[OF M r] unfolding f V by simp
  qed
  then show "is_finite (fmul x y)"
    and "\<bar>valof (fmul x y) - valof x * valof y\<bar> \<le> \<bar>valof x * valof y\<bar> / 2 ^ 24"
    by simp_all
qed

lemma shift_to_exponent:
  assumes "e \<le> ex"
  shows "real_of_int (int m * 2 ^ nat (ex - e)) * 2 powr real_of_int e
           = real m * 2 powr real_of_int ex"
proof -
  have "2 powr real_of_int ex = 2 powr real_of_int (ex - e) * 2 powr real_of_int e"
    by (simp add: powr_add[symmetric])
  also have "2 powr real_of_int (ex - e) = 2 ^ nat (ex - e)"
    using assms by (intro two_powr_int) simp
  finally show ?thesis by simp
qed

lemma fadd_value:
  assumes "is_finite x" and "is_finite y" and "\<not> sign x" and "\<not> sign y"
    and "valof x + valof y = 0 \<or>
         (2 powr (- 126) \<le> valof x + valof y \<and> valof x + valof y < 2 powr 127)"
  shows "is_finite (fadd x y)"
    and "\<bar>valof (fadd x y) - (valof x + valof y)\<bar> \<le> (valof x + valof y) / 2 ^ 24"
proof -
  define e where "e = min (expn x) (expn y)"
  define v where "v = int (mant x) * 2 ^ nat (expn x - e) + int (mant y) * 2 ^ nat (expn y - e)"
  have f: "fadd x y = round_sum v e False"
    using assms(1-4)
    by (simp add: fadd_def finite_not_special add_at_def signed_mant_def e_def v_def)
  have v0: "0 \<le> v" by (simp add: v_def)
  have "real_of_int v * 2 powr real_of_int e
      = real (mant x) * 2 powr real_of_int (expn x) + real (mant y) * 2 powr real_of_int (expn y)"
    unfolding v_def of_int_add distrib_right
    by (intro arg_cong2[where f = "(+)"] shift_to_exponent) (simp_all add: e_def)
  also have "\<dots> = valof x + valof y" using assms(3,4) by (simp add: valof_def)
  finally have V: "real_of_int v * 2 powr real_of_int e = valof x + valof y" .
  have "is_finite (fadd x y) \<and>
        \<bar>valof (fadd x y) - (valof x + valof y)\<bar> \<le> (valof x + valof y) / 2 ^ 24"
  proof (cases "v = 0")
    case True
    then have "fadd x y = pos_zero" unfolding f by (simp add: round_sum_def)
    moreover have "valof x + valof y = 0" using V True by simp
    ultimately show ?thesis by simp
  next
    case False
    then have M: "0 < nat v" using v0 by simp
    have fr: "fadd x y = fround False (nat v) e"
      unfolding f using False v0 by (simp add: round_sum_def)
    have V': "real (nat v) * 2 powr real_of_int e = valof x + valof y"
      using V v0 by simp
    have "valof x + valof y \<noteq> 0" using V' M by (metis mult_eq_0_iff of_nat_0_eq_iff less_numeral_extra(3) powr_eq_0_iff zero_neq_numeral of_nat_eq_0_iff)
    then have r: "2 powr (- 126) \<le> real (nat v) * 2 powr real_of_int e"
      "real (nat v) * 2 powr real_of_int e < 2 powr 127"
      using assms(5) unfolding V' by simp_all
    obtain a where a: "valof (fround False (nat v) e) = (if False then - 1 else 1) * a"
      and er: "\<bar>a - real (nat v) * 2 powr real_of_int e\<bar>
                \<le> real (nat v) * 2 powr real_of_int e / 2 ^ 24"
      using fround_normal(1)[OF M r] by blast
    show ?thesis using a er fround_normal(2)[OF M r] unfolding fr V' by simp
  qed
  then show "is_finite (fadd x y)"
    and "\<bar>valof (fadd x y) - (valof x + valof y)\<bar> \<le> (valof x + valof y) / 2 ^ 24"
    by simp_all
qed

lemma mant_less: "mant x < 16777216"
proof -
  have "unat (frac x) < 2 ^ LENGTH(23)" by (rule unsigned_less)
  then show ?thesis by (simp add: mant_def)
qed

lemma quot_sticky_error:
  assumes "0 < d"
  shows "\<bar>real (quot_sticky n d) - 2 * real n / real d\<bar> \<le> 1"
proof -
  define q where "q = n div d"
  define r where "r = n mod d"
  have n: "n = q * d + r" unfolding q_def r_def by (rule div_mult_mod_eq[symmetric])
  have r: "r < d" using assms by (simp add: r_def)
  define t where "t = real r / real d"
  have "real n / real d = real q + t"
    using assms by (simp add: n t_def field_simps)
  then have e: "2 * real n / real d = 2 * real q + 2 * t" by simp
  have t: "0 \<le> t" "t < 1" using r assms by (simp_all add: t_def)
  have s: "real (quot_sticky n d) = 2 * real q + (if r = 0 then 0 else 1)"
    by (simp add: quot_sticky_def q_def r_def)
  show ?thesis
  proof (cases "r = 0")
    case True
    then have "t = 0" by (simp add: t_def)
    then show ?thesis unfolding e s using True by simp
  next
    case False
    then show ?thesis unfolding e s using t by simp
  qed
qed

lemma rounded_twice:
  fixes a V Q :: real
  assumes "\<bar>a - V\<bar> \<le> V / 2 ^ 24" and "\<bar>V - Q\<bar> \<le> Q / 2 ^ 33" and "0 \<le> Q"
  shows "\<bar>a - Q\<bar> \<le> Q / 2 ^ 23"
proof -
  have "V \<le> Q + Q / 2 ^ 33" using assms(2) by linarith
  then have "V / 2 ^ 24 \<le> (Q + Q / 2 ^ 33) / 2 ^ 24" by (intro divide_right_mono) simp_all
  then have "\<bar>a - V\<bar> \<le> (Q + Q / 2 ^ 33) / 2 ^ 24" using assms(1) by linarith
  then have "\<bar>a - Q\<bar> \<le> (Q + Q / 2 ^ 33) / 2 ^ 24 + Q / 2 ^ 33" using assms(2) by linarith
  also have "\<dots> \<le> Q / 2 ^ 23" using assms(3) by simp
  finally show ?thesis .
qed

lemma near_range:
  fixes V Q :: real
  assumes "\<bar>V - Q\<bar> \<le> Q / 2 ^ 33" and "2 powr (- 125) \<le> Q" and "Q \<le> 2 powr 126"
  shows "2 powr (- 126) \<le> V" and "V < 2 powr 127"
proof -
  have p: "(2::real) powr (- 125) = 2 * 2 powr (- 126)" "(2::real) powr 127 = 2 * 2 powr 126"
    using powr_add[of "2::real" 1 "- 126"] powr_add[of "2::real" 1 126] by simp_all
  have "0 < Q" using assms(2) by (smt (verit) powr_gt_zero)
  have "Q - Q / 2 ^ 33 \<le> V" "V \<le> Q + Q / 2 ^ 33" using assms(1) by linarith+
  moreover have "Q / 2 ^ 33 \<le> Q / 2" using \<open>0 < Q\<close> by simp
  ultimately have "Q / 2 \<le> V" "V \<le> Q + Q / 2" by linarith+
  then show "2 powr (- 126) \<le> V" using assms(2) unfolding p by linarith
  have "0 < (2::real) powr 126" by simp
  then show "V < 2 powr 127" using \<open>V \<le> Q + Q / 2\<close> assms(3) unfolding p by linarith
qed

lemma fdiv_value:
  assumes "is_finite x" and "is_finite y" and "valof y \<noteq> 0"
    and "valof x = 0 \<or>
         (2 powr (- 125) \<le> \<bar>valof x / valof y\<bar> \<and> \<bar>valof x / valof y\<bar> \<le> 2 powr 126)"
  shows "is_finite (fdiv x y)"
    and "\<bar>valof (fdiv x y) - valof x / valof y\<bar> \<le> \<bar>valof x / valof y\<bar> / 2 ^ 23"
proof -
  let ?s = "sign x \<noteq> sign y"
  define N where "N = mant x * 2 ^ 64"
  define d where "d = mant y"
  define E where "E = expn x - expn y - 65"
  define M where "M = quot_sticky N d"
  define Q where "Q = \<bar>valof x / valof y\<bar>"
  have d0: "0 < d" using assms(3) by (simp add: d_def valof_zero_iff)
  then have nz: "\<not> is_zero y" by (auto simp: d_def mant_zero)
  have f: "fdiv x y = fround ?s M E"
    using assms(1,2) nz by (simp add: fdiv_def finite_not_special M_def N_def d_def E_def)
  have sg: "valof x / valof y = (if ?s then - 1 else 1) * Q"
    by (simp add: valof_def Q_def abs_mult)
  have Q: "Q = 2 * real N / real d * 2 powr real_of_int E"
  proof -
    have "2 powr real_of_int E = 2 powr real_of_int (expn x) / 2 powr real_of_int (expn y) / 2 ^ 65"
      by (simp add: E_def powr_diff powr_realpow[symmetric])
    then show ?thesis
      by (simp add: Q_def abs_divide abs_valof N_def d_def)
  qed
  have "is_finite (fdiv x y) \<and> \<bar>valof (fdiv x y) - valof x / valof y\<bar> \<le> Q / 2 ^ 23"
  proof (cases "valof x = 0")
    case True
    then have "N = 0" by (simp add: N_def valof_zero_iff)
    then have "M = 0" by (simp add: M_def quot_sticky_def)
    then have "fdiv x y = F32 ?s 0 0" unfolding f by (simp add: fround_def)
    then show ?thesis using True by (simp add: Q_def)
  next
    case False
    then have mx: "1 \<le> mant x" by (simp add: valof_zero_iff)
    have dl: "d < 2 ^ 24" using mant_less[of y] by (simp add: d_def)
    have T: "2 ^ 41 \<le> 2 * real N / real d"
    proof -
      have "real d < real (2 ^ 24)" using dl by (simp only: of_nat_less_iff)
      then have "real d \<le> 2 ^ 24" by simp
      then have "(2::real) ^ 41 * real d \<le> 2 ^ 41 * 2 ^ 24"
        by (intro mult_left_mono) simp_all
      also have "\<dots> = 2 * 2 ^ 64" by simp
      also have "\<dots> \<le> 2 * real N"
        using mx by (simp add: N_def)
      finally show ?thesis using d0 by (simp add: pos_le_divide_eq)
    qed
    have er: "\<bar>real M - 2 * real N / real d\<bar> \<le> 1"
      unfolding M_def using d0 by (rule quot_sticky_error)
    have M0: "0 < M"
    proof -
      have "(1::real) < 2 ^ 41 - 1" by simp
      also have "\<dots> \<le> real M" using er T by linarith
      finally show ?thesis by simp
    qed
    have "real M * 2 powr real_of_int E - Q
        = (real M - 2 * real N / real d) * 2 powr real_of_int E"
      unfolding Q by (rule left_diff_distrib[symmetric])
    then have "\<bar>real M * 2 powr real_of_int E - Q\<bar>
        = \<bar>real M - 2 * real N / real d\<bar> * 2 powr real_of_int E"
      by (simp only: abs_mult) simp
    also have "\<dots> \<le> 1 * 2 powr real_of_int E"
      using er by (intro mult_right_mono) simp_all
    also have "\<dots> \<le> (2 * real N / real d / 2 ^ 33) * 2 powr real_of_int E"
    proof -
      have "(2::real) ^ 41 / 2 ^ 33 \<le> 2 * real N / real d / 2 ^ 33"
        using T by (intro divide_right_mono) simp_all
      then have "1 \<le> 2 * real N / real d / 2 ^ 33" by simp
      then show ?thesis by (intro mult_right_mono) simp_all
    qed
    also have "\<dots> = Q / 2 ^ 33" unfolding Q by simp
    finally have VQ: "\<bar>real M * 2 powr real_of_int E - Q\<bar> \<le> Q / 2 ^ 33" .
    have rg: "2 powr (- 125) \<le> Q" "Q \<le> 2 powr 126"
      using assms(4) False by (simp_all add: Q_def)
    have r: "2 powr (- 126) \<le> real M * 2 powr real_of_int E"
      "real M * 2 powr real_of_int E < 2 powr 127"
      using near_range[OF VQ rg] by simp_all
    obtain a where a: "valof (fround ?s M E) = (if ?s then - 1 else 1) * a"
      and e: "\<bar>a - real M * 2 powr real_of_int E\<bar> \<le> real M * 2 powr real_of_int E / 2 ^ 24"
      using fround_normal(1)[OF M0 r] by blast
    have "0 \<le> Q" by (simp add: Q_def)
    then have "\<bar>a - Q\<bar> \<le> Q / 2 ^ 23" using e VQ by (intro rounded_twice)
    moreover have "valof (fdiv x y) - valof x / valof y = (if ?s then - 1 else 1) * (a - Q)"
      unfolding f a sg by (simp add: algebra_simps)
    ultimately have "\<bar>valof (fdiv x y) - valof x / valof y\<bar> \<le> Q / 2 ^ 23"
      by (simp add: abs_mult)
    then show ?thesis using fround_normal(2)[OF M0 r] unfolding f by simp
  qed
  then show "is_finite (fdiv x y)"
    and "\<bar>valof (fdiv x y) - valof x / valof y\<bar> \<le> \<bar>valof x / valof y\<bar> / 2 ^ 23"
    by (simp_all add: Q_def)
qed

lemma root_sticky_error:
  "\<bar>real (root_sticky n (isqrt n)) - 2 * sqrt (real n)\<bar> \<le> 1"
proof -
  define r where "r = isqrt n"
  have c: "r * r \<le> n" "n < (r + 1) * (r + 1)" using isqrt_correct[of n] by (simp_all add: r_def)
  have "real (r * r) \<le> real n" using c(1) by (simp only: of_nat_le_iff)
  then have "(real r)\<^sup>2 \<le> real n" by (simp add: power2_eq_square)
  then have lo: "real r \<le> sqrt (real n)" by (simp add: real_le_rsqrt)
  have "real n < real ((r + 1) * (r + 1))" using c(2) by (simp only: of_nat_less_iff)
  then have "real n < (real r + 1)\<^sup>2" by (simp add: power2_eq_square algebra_simps)
  then have hi: "sqrt (real n) < real r + 1" by (intro real_less_lsqrt) simp_all
  show ?thesis
  proof (cases "r * r = n")
    case True
    then have "real n = (real r)\<^sup>2" by (metis of_nat_mult power2_eq_square)
    then have "sqrt (real n) = real r" by simp
    then show ?thesis using True by (simp add: root_sticky_def r_def[symmetric])
  next
    case False
    then have "root_sticky n (isqrt n) = 2 * r + 1" by (simp add: root_sticky_def r_def)
    then show ?thesis using lo hi by simp
  qed
qed

lemma fsqrt_value:
  assumes "is_finite x" and "\<not> sign x" and "valof x \<noteq> 0"
    and "2 powr (- 125) \<le> sqrt (valof x)" and "sqrt (valof x) \<le> 2 powr 126"
  shows "is_finite (fsqrt x)"
    and "\<bar>valof (fsqrt x) - sqrt (valof x)\<bar> \<le> sqrt (valof x) / 2 ^ 23"
proof -
  define k :: nat where "k = (if even (expn x) then 64 else 65)"
  define n where "n = mant x * 2 ^ k"
  define M where "M = root_sticky n (isqrt n)"
  define c where "c = (expn x - int k) div 2"
  define E where "E = c - 1"
  define Q where "Q = sqrt (valof x)"
  have mx: "1 \<le> mant x" using assms(3) by (simp add: valof_zero_iff)
  then have nz: "\<not> is_zero x" by (auto simp: mant_zero)
  have f: "fsqrt x = fround False M E"
    using assms(1,2) nz
    by (simp add: fsqrt_def finite_not_special sqrt_at_def M_def n_def E_def c_def k_def)
  have ev: "even (expn x - int k)" by (simp add: k_def)
  then have c2: "expn x - int k = 2 * c" by (simp add: c_def)
  have k64: "64 \<le> k" by (simp add: k_def)
  have "valof x = real (mant x) * 2 powr real_of_int (expn x)"
    using assms(2) by (simp add: valof_def)
  also have "real_of_int (expn x) = real k + (real_of_int c + real_of_int c)"
    using c2 by (metis add_diff_cancel_left' mult_2 of_int_add of_int_of_nat_eq add.commute diff_add_cancel)
  also have "real (mant x) * 2 powr (real k + (real_of_int c + real_of_int c))
      = real n * (2 powr real_of_int c)\<^sup>2"
    unfolding powr_add power2_eq_square by (simp add: n_def powr_realpow)
  finally have vx: "valof x = real n * (2 powr real_of_int c)\<^sup>2" .
  have Qc: "Q = sqrt (real n) * 2 powr real_of_int c"
    unfolding Q_def vx by (simp add: real_sqrt_mult)
  have "2 powr real_of_int c = 2 * 2 powr real_of_int E"
    using powr_add[of "2::real" 1 "real_of_int E"] by (simp add: E_def)
  then have Q: "Q = 2 * sqrt (real n) * 2 powr real_of_int E" unfolding Qc by simp
  have T: "2 ^ 33 \<le> 2 * sqrt (real n)"
  proof -
    have "(2::nat) ^ 64 \<le> 2 ^ k" using k64 by (intro power_increasing) simp_all
    also have "\<dots> \<le> mant x * 2 ^ k" using mx by simp
    finally have "real ((2::nat) ^ 64) \<le> real n" unfolding n_def by (simp only: of_nat_le_iff)
    then have "((2::real) ^ 32)\<^sup>2 \<le> real n" by simp
    then have "(2::real) ^ 32 \<le> sqrt (real n)" by (intro real_le_rsqrt)
    then show ?thesis by simp
  qed
  have er: "\<bar>real M - 2 * sqrt (real n)\<bar> \<le> 1" unfolding M_def by (rule root_sticky_error)
  have M0: "0 < M"
  proof -
    have "(1::real) < 2 ^ 33 - 1" by simp
    also have "\<dots> \<le> real M" using er T by linarith
    finally show ?thesis by simp
  qed
  have "real M * 2 powr real_of_int E - Q = (real M - 2 * sqrt (real n)) * 2 powr real_of_int E"
    unfolding Q by (rule left_diff_distrib[symmetric])
  then have "\<bar>real M * 2 powr real_of_int E - Q\<bar>
      = \<bar>real M - 2 * sqrt (real n)\<bar> * 2 powr real_of_int E"
    by (simp only: abs_mult) simp
  also have "\<dots> \<le> 1 * 2 powr real_of_int E"
    using er by (intro mult_right_mono) simp_all
  also have "\<dots> \<le> (2 * sqrt (real n) / 2 ^ 33) * 2 powr real_of_int E"
  proof -
    have "(2::real) ^ 33 / 2 ^ 33 \<le> 2 * sqrt (real n) / 2 ^ 33"
      using T by (intro divide_right_mono) simp_all
    then have "1 \<le> 2 * sqrt (real n) / 2 ^ 33" by simp
    then show ?thesis by (intro mult_right_mono) simp_all
  qed
  also have "\<dots> = Q / 2 ^ 33" unfolding Q by simp
  finally have VQ: "\<bar>real M * 2 powr real_of_int E - Q\<bar> \<le> Q / 2 ^ 33" .
  have rg: "2 powr (- 125) \<le> Q" "Q \<le> 2 powr 126" using assms(4,5) by (simp_all add: Q_def)
  have r: "2 powr (- 126) \<le> real M * 2 powr real_of_int E"
    "real M * 2 powr real_of_int E < 2 powr 127"
    using near_range[OF VQ rg] by simp_all
  obtain a where a: "valof (fround False M E) = (if False then - 1 else 1) * a"
    and e: "\<bar>a - real M * 2 powr real_of_int E\<bar> \<le> real M * 2 powr real_of_int E / 2 ^ 24"
    using fround_normal(1)[OF M0 r] by blast
  have "0 \<le> Q" using assms(2) by (simp add: Q_def valof_nonneg)
  then have "\<bar>a - Q\<bar> \<le> Q / 2 ^ 23" using e VQ by (intro rounded_twice)
  then show "\<bar>valof (fsqrt x) - sqrt (valof x)\<bar> \<le> sqrt (valof x) / 2 ^ 23"
    unfolding f a by (simp add: Q_def)
  show "is_finite (fsqrt x)" unfolding f by (rule fround_normal(2)[OF M0 r])
qed

section \<open>The error of the norm and of the scaled elements\<close>

text \<open>
  Relative errors add up along the computation of \<open>normalize\<close>: each step of the sum of
  squares adds two units of roundoff, the square root halves the error of the sum and
  adds its own, and the scaling adds that of a division, or of a reciprocal and a
  multiplication.
\<close>

lemma close_to_mono: "close_to e x r \<Longrightarrow> e \<le> e' \<Longrightarrow> close_to e' x r"
  unfolding close_to_def by (meson abs_ge_zero mult_right_mono order_trans)

lemma close_to_zero: "close_to e x 0 \<Longrightarrow> x = 0"
  by (simp add: close_to_def)

lemma close_to_bounds:
  assumes "close_to e x r" and "0 \<le> r"
  shows "r - e * r \<le> x" and "x \<le> r + e * r"
  using assms unfolding close_to_def by (simp_all add: abs_le_iff)

lemma close_toI:
  assumes "r - e * r \<le> x" and "x \<le> r + e * r" and "0 \<le> r"
  shows "close_to e x r"
  using assms unfolding close_to_def by (simp add: abs_le_iff)

lemma accumulate_step:
  fixes a q a' S p c u :: real
  assumes a: "\<bar>a - S\<bar> \<le> c * u * S" and q: "\<bar>q - p\<bar> \<le> u * p"
    and a': "\<bar>a' - (a + q)\<bar> \<le> u * (a + q)"
    and "0 \<le> S" and "0 \<le> p" and "1 \<le> c" and "0 \<le> u" and "c * u \<le> 1"
  shows "\<bar>a' - (S + p)\<bar> \<le> (c + 2) * u * (S + p)"
proof -
  define T where "T = S + p"
  have T0: "0 \<le> T" using assms by (simp add: T_def)
  have "u * p \<le> c * u * p"
    using assms by (metis mult.assoc mult_le_cancel_right1 mult_nonneg_nonneg mult_right_mono mult.commute mult_1)
  then have s: "\<bar>(a + q) - T\<bar> \<le> c * u * T"
    using a q unfolding T_def by (simp add: algebra_simps)
  then have "a + q \<le> T + c * u * T" by linarith
  moreover have "0 \<le> a + q"
  proof -
    have "c * u * T \<le> 1 * T" using assms(8) T0 by (intro mult_right_mono)
    then show ?thesis using s by linarith
  qed
  ultimately have "u * (a + q) \<le> u * (T + c * u * T)"
    using assms(7) by (intro mult_left_mono)
  also have "\<dots> = u * T + (c * u) * (u * T)" by (simp add: algebra_simps)
  also have "\<dots> \<le> u * T + 1 * (u * T)"
    using assms(7,8) T0 by (intro add_left_mono mult_right_mono) simp_all
  finally have "u * (a + q) \<le> 2 * u * T" by (simp add: algebra_simps)
  then have "\<bar>a' - T\<bar> \<le> 2 * u * T + c * u * T" using a' s by linarith
  then show ?thesis by (simp add: T_def algebra_simps)
qed

lemma close_to_sqrt:
  assumes "close_to e x r" and "0 \<le> r" and "0 \<le> e" and "e \<le> 1"
  shows "close_to e (sqrt x) (sqrt r)"
proof (rule close_toI)
  have b: "r - e * r \<le> x" "x \<le> r + e * r" using close_to_bounds[OF assms(1,2)] by simp_all
  have x0: "0 \<le> x"
  proof -
    have "e * r \<le> 1 * r" using assms by (intro mult_right_mono) simp_all
    then show ?thesis using b(1) by linarith
  qed
  have "(sqrt r + e * sqrt r)\<^sup>2 = r * (1 + e)\<^sup>2"
    using assms(2) by (simp add: algebra_simps power2_eq_square)
  also have "\<dots> \<ge> r * (1 + e)"
    using assms(2,3) by (intro mult_left_mono) (simp_all add: power2_eq_square algebra_simps)
  finally have "x \<le> (sqrt r + e * sqrt r)\<^sup>2" using b(2) by (simp add: algebra_simps)
  then show "sqrt x \<le> sqrt r + e * sqrt r"
    using assms(2,3) by (intro real_le_lsqrt) simp_all
  have "(sqrt r - e * sqrt r)\<^sup>2 = r * (1 - e)\<^sup>2"
    using assms(2) by (simp add: algebra_simps power2_eq_square)
  also have "\<dots> \<le> r * (1 - e)"
  proof -
    have "e * e \<le> 1 * e" using assms(3,4) by (intro mult_right_mono)
    then have "(1 - e)\<^sup>2 \<le> 1 - e"
      by (simp add: power2_eq_square algebra_simps)
    then show ?thesis using assms(2) by (intro mult_left_mono)
  qed
  finally have "(sqrt r - e * sqrt r)\<^sup>2 \<le> x" using b(1) by (simp add: algebra_simps)
  then show "sqrt r - e * sqrt r \<le> sqrt x" by (intro real_le_rsqrt)
  show "0 \<le> sqrt r" using assms(2) by simp
qed

lemma close_to_trans:
  assumes "close_to e1 x y" and "close_to e2 y z" and "0 \<le> e1"
  shows "close_to (e1 + e2 + e1 * e2) x z"
proof -
  have "\<bar>y\<bar> \<le> \<bar>z\<bar> + e2 * \<bar>z\<bar>" using assms(2) unfolding close_to_def by linarith
  then have "e1 * \<bar>y\<bar> \<le> e1 * (\<bar>z\<bar> + e2 * \<bar>z\<bar>)" using assms(3) by (intro mult_left_mono)
  then have "\<bar>x - y\<bar> \<le> e1 * (\<bar>z\<bar> + e2 * \<bar>z\<bar>)" using assms(1) unfolding close_to_def by linarith
  then have "\<bar>x - z\<bar> \<le> e1 * (\<bar>z\<bar> + e2 * \<bar>z\<bar>) + e2 * \<bar>z\<bar>"
    using assms(2) unfolding close_to_def by linarith
  then show ?thesis unfolding close_to_def by (simp add: algebra_simps)
qed

lemma close_to_scale: "close_to e x r \<Longrightarrow> close_to e (a * x) (a * r)"
proof -
  assume "close_to e x r"
  then have "\<bar>a\<bar> * \<bar>x - r\<bar> \<le> \<bar>a\<bar> * (e * \<bar>r\<bar>)"
    unfolding close_to_def by (intro mult_left_mono) simp_all
  then show ?thesis unfolding close_to_def by (simp add: abs_mult[symmetric] algebra_simps)
qed

lemma close_to_inverse:
  assumes "close_to e y r" and "0 < r" and "0 \<le> e" and "e \<le> 1 / 2"
  shows "close_to (2 * e) (1 / y) (1 / r)" and "0 < y"
proof -
  have b: "r - e * r \<le> y" "y \<le> r + e * r"
    using close_to_bounds[OF assms(1)] assms(2) by simp_all
  have "e * r \<le> (1 / 2) * r" using assms by (intro mult_right_mono) simp_all
  then have h: "r / 2 \<le> y" using b(1) by simp
  then show y: "0 < y" using assms(2) by linarith
  have "\<bar>1 / y - 1 / r\<bar> = \<bar>r - y\<bar> / (y * r)"
    using y assms(2) by (simp add: field_simps abs_divide)
  also have "\<dots> \<le> (e * r) / (y * r)"
    using assms(1,2) y unfolding close_to_def
    by (intro divide_right_mono) (simp_all add: abs_minus_commute)
  also have "\<dots> = e / y" using assms(2) by simp
  also have "\<dots> \<le> e / (r / 2)"
    using h assms(2,3) by (intro divide_left_mono) simp_all
  also have "\<dots> = 2 * e * \<bar>1 / r\<bar>" using assms(2) by simp
  finally show "close_to (2 * e) (1 / y) (1 / r)" unfolding close_to_def .
qed

lemma band_square:
  assumes "in_band (2 ^ 60) x"
  shows "(valof x)\<^sup>2 = 0 \<or> (1 / 2 ^ 120 \<le> (valof x)\<^sup>2 \<and> (valof x)\<^sup>2 \<le> 2 ^ 120)"
proof (cases "valof x = 0")
  case False
  then have b: "1 / 2 ^ 60 \<le> \<bar>valof x\<bar>" "\<bar>valof x\<bar> \<le> 2 ^ 60"
    using assms by (simp_all add: in_band_def)
  have "(1 / 2 ^ 60)\<^sup>2 \<le> \<bar>valof x\<bar>\<^sup>2" using b(1) by (intro power_mono) simp_all
  moreover have "\<bar>valof x\<bar>\<^sup>2 \<le> (2 ^ 60)\<^sup>2" using b(2) by (intro power_mono) simp_all
  ultimately show ?thesis by (simp add: power_divide)
qed simp

lemma close_range:
  fixes a S e :: real
  assumes "\<bar>a - S\<bar> \<le> e * S" and "e \<le> 1 / 2" and "0 \<le> S"
  shows "S / 2 \<le> a" and "a \<le> S + S / 2"
proof -
  have "e * S \<le> (1 / 2) * S" using assms(2,3) by (intro mult_right_mono)
  then show "S / 2 \<le> a" and "a \<le> S + S / 2" using assms(1) by (simp_all add: abs_le_iff)
qed

lemma square_accumulate:
  assumes "is_finite acc" and "\<not> sign acc"
    and a: "\<bar>valof acc - S\<bar> \<le> c * (1 / 2 ^ 24) * S"
    and x: "in_band (2 ^ 60) x"
    and S: "S = 0 \<or> 1 / 2 ^ 120 \<le> S" "S \<le> 16 * 2 ^ 120"
    and c: "1 \<le> c" "c \<le> 33"
  shows "is_finite (fadd acc (fmul x x))"
    and "\<not> sign (fadd acc (fmul x x))"
    and "\<bar>valof (fadd acc (fmul x x)) - (S + (valof x)\<^sup>2)\<bar>
           \<le> (c + 2) * (1 / 2 ^ 24) * (S + (valof x)\<^sup>2)"
proof -
  define p where "p = (valof x)\<^sup>2"
  define q where "q = fmul x x"
  have fx: "is_finite x" using x by (simp add: in_band_def)
  have p: "p = 0 \<or> (1 / 2 ^ 120 \<le> p \<and> p \<le> 2 ^ 120)"
    using band_square[OF x] by (simp add: p_def)
  have p0: "0 \<le> p" by (simp add: p_def)
  have pp: "valof x * valof x = p" by (simp add: p_def power2_eq_square)
  have "valof x * valof x = 0 \<or>
      (2 powr (- 126) \<le> \<bar>valof x * valof x\<bar> \<and> \<bar>valof x * valof x\<bar> < 2 powr 127)"
    unfolding pp using p p0 by (auto simp: powr_neg_numeral) 
  then have q: "is_finite q" "\<bar>valof q - p\<bar> \<le> p / 2 ^ 24"
    using fmul_value[OF fx fx] p0 unfolding q_def pp by simp_all
  have "\<not> is_nan x" using fx by (simp add: is_finite_def is_nan_def)
  then have sq: "\<not> sign q" unfolding q_def by (rule sign_fmul_self)
  have S0: "0 \<le> S" using S(1) by auto
  have e: "c * (1 / 2 ^ 24) \<le> 1 / 2" using c(2) by simp
  have ar: "S / 2 \<le> valof acc" "valof acc \<le> S + S / 2"
    using close_range[OF a e S0] by simp_all
  have qr: "p / 2 \<le> valof q" "valof q \<le> p + p / 2"
    using close_range[of "valof q" p "1 / 2 ^ 24"] q(2) p0 by simp_all
  define s where "s = valof acc + valof q"
  have s_hi: "s < 2 powr 127"
  proof -
    have "p \<le> 2 ^ 120" using p by auto
    then have "s \<le> (16 * 2 ^ 120 + 16 * 2 ^ 120 / 2) + (2 ^ 120 + 2 ^ 120 / 2)"
      using ar(2) qr(2) S(2) unfolding s_def by linarith
    also have "\<dots> < 2 powr 127" by simp
    finally show ?thesis .
  qed
  have s_lo: "s = 0 \<or> 2 powr (- 126) \<le> s"
  proof (cases "S = 0 \<and> p = 0")
    case True
    then have "valof acc = 0" "valof q = 0" using a q(2) by simp_all
    then show ?thesis by (simp add: s_def)
  next
    case False
    then have "1 / 2 ^ 120 \<le> S + p" using S(1) p S0 p0 by auto
    then have "1 / 2 ^ 121 \<le> s" using ar(1) qr(1) unfolding s_def by simp
    moreover have "(2::real) powr (- 126) \<le> 1 / 2 ^ 121" by (simp add: powr_neg_numeral)
    ultimately show ?thesis by linarith
  qed
  have "valof acc + valof q = 0 \<or>
      (2 powr (- 126) \<le> valof acc + valof q \<and> valof acc + valof q < 2 powr 127)"
    using s_lo s_hi by (auto simp: s_def)
  then have r: "is_finite (fadd acc q)" "\<bar>valof (fadd acc q) - s\<bar> \<le> s / 2 ^ 24"
    using fadd_value[OF assms(1) q(1) assms(2) sq] unfolding s_def by simp_all
  show "is_finite (fadd acc (fmul x x))" using r(1) by (simp add: q_def)
  show "\<not> sign (fadd acc (fmul x x))" using assms(2) sq unfolding q_def by (rule sign_fadd)
  have "\<bar>valof (fadd acc q) - (S + p)\<bar> \<le> (c + 2) * (1 / 2 ^ 24) * (S + p)"
  proof (rule accumulate_step[where a = "valof acc" and q = "valof q"])
    show "\<bar>valof acc - S\<bar> \<le> c * (1 / 2 ^ 24) * S" by (rule a)
    show "\<bar>valof q - p\<bar> \<le> 1 / 2 ^ 24 * p" using q(2) by simp
    show "\<bar>valof (fadd acc q) - (valof acc + valof q)\<bar> \<le> 1 / 2 ^ 24 * (valof acc + valof q)"
      using r(2) by (simp add: s_def)
    show "c * (1 / 2 ^ 24) \<le> 1" using c(2) by simp
  qed (use S0 p0 c in simp_all)
  then show "\<bar>valof (fadd acc (fmul x x)) - (S + (valof x)\<^sup>2)\<bar>
           \<le> (c + 2) * (1 / 2 ^ 24) * (S + (valof x)\<^sup>2)"
    by (simp add: q_def p_def)
qed

lemma sq_sum_simps [simp]:
  "sq_sum [] = 0" "sq_sum (x # xs) = (valof x)\<^sup>2 + sq_sum xs"
  "sq_sum (xs @ ys) = sq_sum xs + sq_sum ys"
  by (simp_all add: sq_sum_def)

lemma sq_sum_nonneg: "0 \<le> sq_sum xs"
  by (induction xs) simp_all

lemma sq_sum_take_Suc:
  "j < length xs \<Longrightarrow> sq_sum (take (Suc j) xs) = sq_sum (take j xs) + (valof (xs ! j))\<^sup>2"
  by (simp add: take_Suc_conv_app_nth)

lemma sq_sum_band:
  assumes "\<forall>x \<in> set xs. in_band (2 ^ 60) x"
  shows "sq_sum xs = 0 \<or> 1 / 2 ^ 120 \<le> sq_sum xs" and "sq_sum xs \<le> real (length xs) * 2 ^ 120"
  using assms
proof (induction xs)
  case Nil
  { case 1 show ?case by simp }
  { case 2 show ?case by simp }
next
  case (Cons x xs)
  { case 1
    have b: "(valof x)\<^sup>2 = 0 \<or> (1 / 2 ^ 120 \<le> (valof x)\<^sup>2 \<and> (valof x)\<^sup>2 \<le> 2 ^ 120)"
      using 1 by (intro band_square) simp
    have "sq_sum xs = 0 \<or> 1 / 2 ^ 120 \<le> sq_sum xs" using Cons.IH(1) 1 by simp
    then show ?case using b sq_sum_nonneg[of xs] by (auto simp: add_increasing add_increasing2) }
  { case 2
    have b: "(valof x)\<^sup>2 \<le> 2 ^ 120"
      using band_square[of x] 2 by auto
    have "sq_sum xs \<le> real (length xs) * 2 ^ 120" using Cons.IH(2) 2 by simp
    then show ?case using b by (simp add: algebra_simps) }
qed

lemma band_take: "\<forall>x \<in> set xs. in_band b x \<Longrightarrow> \<forall>x \<in> set (take j xs). in_band b x"
  by (meson in_set_takeD)

lemma norm_loop_cpp_value:
  assumes "0 \<le> len" and "len \<le> 16" and "h v = xs" and "length xs = nat len"
    and band: "\<forall>x \<in> set xs. in_band (2 ^ 60) x"
  shows "\<exists>acc. for_loop 1 0 len (norm_body_cpp ieee v) (h, pos_zero) = Inr (h, acc) \<and>
           is_finite acc \<and> \<not> sign acc \<and>
           \<bar>valof acc - sq_sum xs\<bar> \<le> 33 * (1 / 2 ^ 24) * sq_sum xs"
proof -
  let ?S = "\<lambda>j. sq_sum (take (nat j) xs)"
  let ?I = "\<lambda>(j::int) st. case st of (h', acc) \<Rightarrow>
              h' = h \<and> is_finite acc \<and> \<not> sign acc \<and>
              \<bar>valof acc - ?S j\<bar> \<le> (2 * real_of_int j + 1) * (1 / 2 ^ 24) * ?S j"
  have "\<exists>t. for_loop 1 0 len (norm_body_cpp ieee v) (h, pos_zero) = Inr t \<and> ?I len t"
  proof (rule for_loop_total[where I = ?I])
    show "?I 0 (h, pos_zero)" by simp
  next
    fix j and u :: "f32 heap \<times> f32"
    assume j: "0 \<le> j" "j < len" and u: "?I j u"
    obtain acc where u': "u = (h, acc)" and acc: "is_finite acc" "\<not> sign acc"
      and a: "\<bar>valof acc - ?S j\<bar> \<le> (2 * real_of_int j + 1) * (1 / 2 ^ 24) * ?S j"
      using u by (cases u) auto
    define x where "x = xs ! nat j"
    have jn: "nat j < length xs" using j assms(4) by simp
    have x: "in_band (2 ^ 60) x" using band jn by (simp add: x_def)
    have ld: "load h v j = Inr x" using assms(3) jn j(1) by (simp add: load_def x_def)
    have tb: "\<forall>y \<in> set (take (nat j) xs). in_band (2 ^ 60) y" using band by (rule band_take)
    have S1: "?S j = 0 \<or> 1 / 2 ^ 120 \<le> ?S j" using sq_sum_band(1)[OF tb] .
    have "?S j \<le> real (length (take (nat j) xs)) * 2 ^ 120" using sq_sum_band(2)[OF tb] .
    also have "\<dots> \<le> 16 * 2 ^ 120" using j assms(2) by simp
    finally have S2: "?S j \<le> 16 * 2 ^ 120" .
    have c: "1 \<le> 2 * real_of_int j + 1" "2 * real_of_int j + 1 \<le> 33"
      using j assms(2) by simp_all
    note st = square_accumulate[OF acc a x S1 S2 c]
    have Sn: "?S (j + 1) = ?S j + (valof x)\<^sup>2"
      using sq_sum_take_Suc[OF jn] j(1) by (simp add: x_def nat_add_distrib)
    have "norm_body_cpp ieee v j u = Inr (h, fadd acc (fmul x x))"
      using u' ld by (simp add: norm_body_cpp_def bind_def)
    moreover have "?I (j + 1) (h, fadd acc (fmul x x))"
      using st unfolding Sn by (simp add: algebra_simps)
    ultimately show "\<exists>u'. norm_body_cpp ieee v j u = Inr u' \<and> ?I (j + 1) u'" by blast
  qed (use assms in \<open>simp_all add: INT_MAX_def\<close>)
  then obtain acc where l: "for_loop 1 0 len (norm_body_cpp ieee v) (h, pos_zero) = Inr (h, acc)"
    and acc: "is_finite acc" "\<not> sign acc"
    and a: "\<bar>valof acc - sq_sum xs\<bar> \<le> (2 * real_of_int len + 1) * (1 / 2 ^ 24) * sq_sum xs"
    using assms(4) by auto
  have "(2 * real_of_int len + 1) * (1 / 2 ^ 24) * sq_sum xs \<le> 33 * (1 / 2 ^ 24) * sq_sum xs"
    using assms(2) sq_sum_nonneg[of xs] by (intro mult_right_mono) simp_all
  then show ?thesis using l acc a by (intro exI[of _ acc]) linarith
qed

lemma mant_zero_iff: "mant x = 0 \<longleftrightarrow> is_zero x"
proof
  assume m: "mant x = 0"
  then have e: "expo x = 0" by (auto simp: mant_def split: if_splits)
  then have "unat (frac x) = 0" using m by (simp add: mant_def)
  then have "frac x = 0" by (simp add: unat_eq_0)
  then show "is_zero x" using e by (simp add: is_zero_def)
qed (rule mant_zero)

lemma fgt_zero_iff:
  assumes "is_finite x"
  shows "fgt x pos_zero \<longleftrightarrow> 0 < valof x"
proof -
  have k0: "order_key pos_zero = 0" by (simp add: order_key_def pos_zero_def)
  have n: "\<not> is_nan x" "\<not> is_nan pos_zero"
    using assms by (simp_all add: is_finite_def is_nan_def pos_zero_def)
  have p: "0 < valof x \<longleftrightarrow> \<not> sign x \<and> mant x \<noteq> 0"
    by (auto simp: valof_def zero_less_mult_iff)
  have "0 < order_key x \<longleftrightarrow> \<not> sign x \<and> \<not> is_zero x"
  proof -
    define w where "w = int (unat (expo x)) * 8388608 + int (unat (frac x))"
    have z: "w = 0 \<longleftrightarrow> is_zero x"
      by (auto simp: w_def is_zero_def add_nonneg_eq_0_iff uint_0_iff)
    have w0: "0 \<le> w" by (simp add: w_def)
    have "order_key x = (if sign x then - 1 else 1) * w" by (simp add: order_key_def w_def)
    then show ?thesis using z w0 by (cases "sign x") auto
  qed
  then show ?thesis using n k0 p by (simp add: fgt_def mant_zero_iff)
qed

lemma norm_from_sum:
  assumes "is_finite acc" and "\<not> sign acc"
    and a: "\<bar>valof acc - S\<bar> \<le> 33 * (1 / 2 ^ 24) * S"
    and S: "S = 0 \<or> 1 / 2 ^ 120 \<le> S" "S \<le> 16 * 2 ^ 120"
  shows "is_finite (fsqrt acc)" and "\<not> sign (fsqrt acc)"
    and "close_to (36 / 2 ^ 24) (valof (fsqrt acc)) (sqrt S)"
proof -
  show "\<not> sign (fsqrt acc)" using assms(2) by (rule sign_fsqrt)
  have S0: "0 \<le> S" using S(1) by auto
  have "is_finite (fsqrt acc) \<and> close_to (36 / 2 ^ 24) (valof (fsqrt acc)) (sqrt S)"
  proof (cases "S = 0")
    case True
    then have "valof acc = 0" using a by simp
    then have "is_zero acc" by (simp add: valof_zero_iff mant_zero_iff)
    then have "fsqrt acc = acc" by (simp add: fsqrt_def is_zero_def is_nan_def)
    then show ?thesis using assms(1) True \<open>valof acc = 0\<close> by (simp add: close_to_def)
  next
    case False
    then have Slo: "1 / 2 ^ 120 \<le> S" using S(1) by simp
    define A where "A = valof acc"
    have e: "33 * (1 / 2 ^ 24) \<le> (1::real) / 2" by simp
    have Ar: "S / 2 \<le> A" "A \<le> S + S / 2" using close_range[OF a e S0] by (simp_all add: A_def)
    have A1: "(1 / 2 ^ 61)\<^sup>2 \<le> A" using Ar(1) Slo by (simp add: power_divide)
    have A2: "A \<le> (2 ^ 63)\<^sup>2" using Ar(2) S(2) by simp
    have Apos: "A \<noteq> 0" using A1 by (auto simp: power_divide)
    have "1 / 2 ^ 61 \<le> sqrt A" using A1 by (intro real_le_rsqrt)
    moreover have "(2::real) powr (- 125) \<le> 1 / 2 ^ 61" by (simp add: powr_neg_numeral)
    ultimately have r1: "2 powr (- 125) \<le> sqrt (valof acc)" unfolding A_def by linarith
    have "sqrt A \<le> 2 ^ 63" using A2 by (intro real_le_lsqrt) simp_all
    moreover have "(2::real) ^ 63 \<le> 2 powr 126" by simp
    ultimately have r2: "sqrt (valof acc) \<le> 2 powr 126" unfolding A_def by linarith
    have nz: "valof acc \<noteq> 0" using Apos by (simp add: A_def)
    note v = fsqrt_value[OF assms(1,2) nz r1 r2]
    have c1: "close_to (1 / 2 ^ 23) (valof (fsqrt acc)) (sqrt A)"
      using v(2) by (simp add: close_to_def A_def)
    have "close_to (33 * (1 / 2 ^ 24)) A S"
      using a S0 by (simp add: close_to_def A_def)
    then have c2: "close_to (33 * (1 / 2 ^ 24)) (sqrt A) (sqrt S)"
      using S0 by (intro close_to_sqrt) simp_all
    have "close_to (1 / 2 ^ 23 + 33 * (1 / 2 ^ 24) + 1 / 2 ^ 23 * (33 * (1 / 2 ^ 24)))
        (valof (fsqrt acc)) (sqrt S)"
      using c1 c2 by (rule close_to_trans) simp
    then have "close_to (36 / 2 ^ 24) (valof (fsqrt acc)) (sqrt S)"
      by (rule close_to_mono) simp
    then show ?thesis using v(1) by simp
  qed
  then show "is_finite (fsqrt acc)" and "close_to (36 / 2 ^ 24) (valof (fsqrt acc)) (sqrt S)"
    by simp_all
qed

lemma norm_facts:
  assumes "close_to (36 / 2 ^ 24) nu N" and "1 / 2 ^ 60 \<le> N" and "N \<le> 4 * 2 ^ 60"
  shows "1 / 2 ^ 61 \<le> nu" and "nu \<le> 6 * 2 ^ 60" and "0 < nu"
    and "close_to (72 / 2 ^ 24) (1 / nu) (1 / N)"
proof -
  have "(0::real) < 1 / 2 ^ 60" by simp
  then have N0: "0 < N" using assms(2) by linarith
  have "\<bar>nu - N\<bar> \<le> 36 / 2 ^ 24 * \<bar>N\<bar>" using assms(1) unfolding close_to_def .
  then have d: "\<bar>nu - N\<bar> \<le> 36 / 2 ^ 24 * N" using N0 by (simp only: abs_of_pos)
  have e: "(36::real) / 2 ^ 24 \<le> 1 / 2" by simp
  have r: "N / 2 \<le> nu" "nu \<le> N + N / 2"
    using close_range[OF d e] N0 by simp_all
  have h: "(1::real) / 2 ^ 61 = 1 / 2 ^ 60 / 2" by simp
  have "1 / 2 ^ 60 / 2 \<le> N / 2" using assms(2) by (rule divide_right_mono) simp
  then show "1 / 2 ^ 61 \<le> nu" unfolding h using r(1) by (rule order_trans)
  define K where "K = (2::real) ^ 60"
  have "N + N / 2 \<le> 4 * K + 4 * K / 2" using assms(3) unfolding K_def[symmetric] by linarith
  also have "\<dots> = 6 * K" by simp
  finally have "nu \<le> 6 * K" using r(2) by linarith
  then show "nu \<le> 6 * 2 ^ 60" by (simp only: K_def)
  show "0 < nu" using r(1) N0 by linarith
  have "close_to (2 * (36 / 2 ^ 24)) (1 / nu) (1 / N)"
    using assms(1) N0 by (rule close_to_inverse) simp_all
  moreover have "2 * ((36::real) / 2 ^ 24) = 72 / 2 ^ 24" by simp
  ultimately show "close_to (72 / 2 ^ 24) (1 / nu) (1 / N)" by (simp only:)
qed
lemma band_quotient:
  fixes xi nu :: real
  assumes "1 / 2 ^ 60 \<le> \<bar>xi\<bar>" and "\<bar>xi\<bar> \<le> 2 ^ 60" and "1 / 2 ^ 61 \<le> nu" and "nu \<le> 6 * 2 ^ 60"
  shows "1 / 2 ^ 123 \<le> \<bar>xi / nu\<bar>" and "\<bar>xi / nu\<bar> \<le> 2 ^ 121"
proof -
  have "(0::real) < 1 / 2 ^ 61" by simp
  then have nu0: "0 < nu" using assms(3) by linarith
  have "1 / 2 ^ 123 * nu \<le> 1 / 2 ^ 123 * (6 * 2 ^ 60)"
    using assms(4) by (intro mult_left_mono) simp_all
  also have "\<dots> \<le> 1 / 2 ^ 60" by simp
  finally have "1 / 2 ^ 123 * nu \<le> \<bar>xi\<bar>" using assms(1) by linarith
  then show "1 / 2 ^ 123 \<le> \<bar>xi / nu\<bar>" using nu0 by (simp add: pos_le_divide_eq)
  have "\<bar>xi\<bar> \<le> 2 ^ 121 * (1 / 2 ^ 61)" using assms(2) by simp
  also have "\<dots> \<le> 2 ^ 121 * nu" using assms(3) by (intro mult_left_mono) simp_all
  finally show "\<bar>xi / nu\<bar> \<le> 2 ^ 121" using nu0 by (simp add: pos_divide_le_eq)
qed

lemma scale_elem_cpp:
  assumes x: "in_band (2 ^ 60) x"
    and n: "is_finite nrm" "close_to (36 / 2 ^ 24) (valof nrm) N"
    and N: "1 / 2 ^ 60 \<le> N" "N \<le> 4 * 2 ^ 60"
  shows "is_finite (fdiv x nrm)"
    and "close_to (76 / 2 ^ 24) (valof (fdiv x nrm)) (valof x / N)"
proof -
  note nf = norm_facts[OF n(2) N]
  have fx: "is_finite x" using x by (simp add: in_band_def)
  have nz: "valof nrm \<noteq> 0" using nf(3) by simp
  have "valof x = 0 \<or> (2 powr (- 125) \<le> \<bar>valof x / valof nrm\<bar> \<and>
      \<bar>valof x / valof nrm\<bar> \<le> 2 powr 126)"
  proof (cases "valof x = 0")
    case False
    then have b: "1 / 2 ^ 60 \<le> \<bar>valof x\<bar>" "\<bar>valof x\<bar> \<le> 2 ^ 60"
      using x by (simp_all add: in_band_def)
    note q = band_quotient[OF b nf(1,2)]
    have "(2::real) powr (- 125) \<le> 1 / 2 ^ 123" by (simp add: powr_neg_numeral)
    moreover have "(2::real) ^ 121 \<le> 2 powr 126" by simp
    ultimately show ?thesis using q by linarith
  qed simp
  note v = fdiv_value[OF fx n(1) nz this]
  show "is_finite (fdiv x nrm)" by (rule v(1))
  have c1: "close_to (1 / 2 ^ 23) (valof (fdiv x nrm)) (valof x / valof nrm)"
    using v(2) by (simp add: close_to_def)
  have c2: "close_to (72 / 2 ^ 24) (valof x / valof nrm) (valof x / N)"
    using close_to_scale[OF nf(4), of "valof x"] by simp
  have "close_to (1 / 2 ^ 23 + 72 / 2 ^ 24 + 1 / 2 ^ 23 * (72 / 2 ^ 24))
      (valof (fdiv x nrm)) (valof x / N)"
    using c1 c2 by (rule close_to_trans) simp
  then show "close_to (76 / 2 ^ 24) (valof (fdiv x nrm)) (valof x / N)"
    by (rule close_to_mono) simp
qed

lemma one_facts: "is_finite f32_one" "valof f32_one = 1"
  by (simp_all add: is_finite_def f32_one_def valof_def mant_def expn_def powr_neg_numeral)

lemma scale_elem_c:
  assumes x: "in_band (2 ^ 60) x"
    and n: "is_finite nrm" "close_to (36 / 2 ^ 24) (valof nrm) N"
    and N: "1 / 2 ^ 60 \<le> N" "N \<le> 4 * 2 ^ 60"
  shows "is_finite (fmul x (fdiv f32_one nrm))"
    and "close_to (76 / 2 ^ 24) (valof (fmul x (fdiv f32_one nrm))) (valof x / N)"
proof -
  note nf = norm_facts[OF n(2) N]
  define inv where "inv = fdiv f32_one nrm"
  have fx: "is_finite x" using x by (simp add: in_band_def)
  have nz: "valof nrm \<noteq> 0" using nf(3) by simp
  have q1: "1 / 2 ^ 123 \<le> \<bar>1 / valof nrm\<bar>" "\<bar>1 / valof nrm\<bar> \<le> 2 ^ 121"
    using band_quotient[of 1 "valof nrm"] nf(1,2) by simp_all
  have "valof f32_one = 0 \<or> (2 powr (- 125) \<le> \<bar>valof f32_one / valof nrm\<bar> \<and>
      \<bar>valof f32_one / valof nrm\<bar> \<le> 2 powr 126)"
  proof -
    have "(2::real) powr (- 125) \<le> 1 / 2 ^ 123" by (simp add: powr_neg_numeral)
    moreover have "(2::real) ^ 121 \<le> 2 powr 126" by simp
    ultimately show ?thesis using q1 unfolding one_facts by linarith
  qed
  note v = fdiv_value[OF one_facts(1) n(1) nz this]
  have fi: "is_finite inv" using v(1) by (simp add: inv_def)
  have ci: "close_to (1 / 2 ^ 23) (valof inv) (1 / valof nrm)"
    using v(2) by (simp add: close_to_def inv_def one_facts)
  have ip: "0 < 1 / valof nrm" using nf(3) by simp
  have "\<bar>valof inv - 1 / valof nrm\<bar> \<le> 1 / 2 ^ 23 * (1 / valof nrm)"
    using ci ip by (simp add: close_to_def)
  then have ir: "(1 / valof nrm) / 2 \<le> valof inv" "valof inv \<le> 1 / valof nrm + (1 / valof nrm) / 2"
    using close_range[of "valof inv" "1 / valof nrm" "1 / 2 ^ 23"] ip by simp_all
  have il: "1 / (12 * 2 ^ 60) \<le> valof inv"
  proof -
    have "1 / (6 * 2 ^ 60) \<le> 1 / valof nrm"
      using nf(2,3) by (intro divide_left_mono) simp_all
    then show ?thesis using ir(1) by simp
  qed
  have iu: "valof inv \<le> 3 * 2 ^ 60"
  proof -
    have "1 / valof nrm \<le> 1 / (1 / 2 ^ 61)"
      using nf(1,3) by (intro divide_left_mono) simp_all
    then show ?thesis using ir(2) by simp
  qed
  have "valof x * valof inv = 0 \<or> (2 powr (- 126) \<le> \<bar>valof x * valof inv\<bar> \<and>
      \<bar>valof x * valof inv\<bar> < 2 powr 127)"
  proof (cases "valof x = 0")
    case False
    then have b: "1 / 2 ^ 60 \<le> \<bar>valof x\<bar>" "\<bar>valof x\<bar> \<le> 2 ^ 60"
      using x by (simp_all add: in_band_def)
    have "(0::real) \<le> 1 / (12 * 2 ^ 60)" by simp
    then have i0: "0 \<le> valof inv" using il by linarith
    have "1 / 2 ^ 60 * (1 / (12 * 2 ^ 60)) \<le> \<bar>valof x\<bar> * valof inv"
      using b(1) il i0 by (intro mult_mono) simp_all
    moreover have "(2::real) powr (- 126) \<le> 1 / 2 ^ 60 * (1 / (12 * 2 ^ 60))"
      by (simp add: powr_neg_numeral)
    moreover have "\<bar>valof x\<bar> * valof inv \<le> 2 ^ 60 * (3 * 2 ^ 60)"
      using b(2) iu i0 by (intro mult_mono) simp_all
    moreover have "(2::real) ^ 60 * (3 * 2 ^ 60) < 2 powr 127" by simp
    ultimately have "2 powr (- 126) \<le> \<bar>valof x\<bar> * valof inv"
      "\<bar>valof x\<bar> * valof inv < 2 powr 127" by linarith+
    then show ?thesis using i0 by (simp only: abs_mult abs_of_nonneg[OF i0]) simp
  qed simp
  note m = fmul_value[OF fx fi this]
  show "is_finite (fmul x (fdiv f32_one nrm))" using m(1) by (simp add: inv_def)
  have c1: "close_to (1 / 2 ^ 24) (valof (fmul x inv)) (valof x * valof inv)"
    using m(2) by (simp add: close_to_def)
  have c2: "close_to (1 / 2 ^ 23) (valof x * valof inv) (valof x * (1 / valof nrm))"
    using ci by (rule close_to_scale)
  have c3: "close_to (72 / 2 ^ 24) (valof x * (1 / valof nrm)) (valof x * (1 / N))"
    using nf(4) by (rule close_to_scale)
  have "close_to (1 / 2 ^ 24 + 1 / 2 ^ 23 + 1 / 2 ^ 24 * (1 / 2 ^ 23))
      (valof (fmul x inv)) (valof x * (1 / valof nrm))"
    using c1 c2 by (rule close_to_trans) simp
  then have c12: "close_to (7 / 2 ^ 25) (valof (fmul x inv)) (valof x * (1 / valof nrm))"
    by (rule close_to_mono) simp
  have "close_to (7 / 2 ^ 25 + 72 / 2 ^ 24 + 7 / 2 ^ 25 * (72 / 2 ^ 24))
      (valof (fmul x inv)) (valof x * (1 / N))"
    using c12 c3 by (rule close_to_trans) simp
  then have "close_to (76 / 2 ^ 24) (valof (fmul x inv)) (valof x * (1 / N))"
    by (rule close_to_mono) simp
  then show "close_to (76 / 2 ^ 24) (valof (fmul x (fdiv f32_one nrm))) (valof x / N)"
    by (simp add: inv_def)
qed

lemma update_take_drop:
  assumes "j < length xs"
  shows "(map g (take j xs) @ drop j xs)[j := g (xs ! j)]
           = map g (take (Suc j) xs) @ drop (Suc j) xs"
proof -
  have d: "drop j xs = xs ! j # drop (Suc j) xs" using assms by (simp add: Cons_nth_drop_Suc)
  have l: "length (map g (take j xs)) = j" using assms by simp
  have "(map g (take j xs) @ xs ! j # drop (Suc j) xs)[j := g (xs ! j)]
      = map g (take j xs) @ g (xs ! j) # drop (Suc j) xs"
    using list_update_length[of "map g (take j xs)" "xs ! j" "drop (Suc j) xs" "g (xs ! j)"]
    unfolding l .
  then show ?thesis unfolding d using assms by (simp add: take_Suc_conv_app_nth)
qed

lemma nth_take_drop:
  assumes "j \<le> i" and "i < length xs"
  shows "(map g (take j xs) @ drop j xs) ! i = xs ! i"
  using assms by (simp add: nth_append)

lemma scale_loop_cpp_map:
  assumes "0 \<le> len" and "len \<le> INT_MAX" and "h v = xs" and "length xs = nat len"
  shows "for_loop 1 0 len (scale_body_cpp A v nrm) h
           = Inr (h(v := map (\<lambda>x. f_div A x nrm) xs))"
proof -
  let ?g = "\<lambda>x. f_div A x nrm"
  let ?I = "\<lambda>(j::int) h'. h' = h(v := map ?g (take (nat j) xs) @ drop (nat j) xs)"
  have "\<exists>t. for_loop 1 0 len (scale_body_cpp A v nrm) h = Inr t \<and> ?I len t"
  proof (rule for_loop_total[where I = ?I])
    show "?I 0 h" using assms(3) by auto
  next
    fix j and u :: "'a heap"
    assume j: "0 \<le> j" "j < len" and u: "?I j u"
    have jn: "nat j < length xs" using j assms(4) by simp
    have uv: "u v = map ?g (take (nat j) xs) @ drop (nat j) xs" using u by simp
    have lu: "length (u v) = length xs" unfolding uv by simp
    have "u v ! nat j = xs ! nat j" unfolding uv using jn by (intro nth_take_drop) simp_all
    then have ld: "load u v j = Inr (xs ! nat j)" using lu jn j(1) by (simp add: load_def)
    have "(u v)[nat j := ?g (xs ! nat j)]
        = map ?g (take (Suc (nat j)) xs) @ drop (Suc (nat j)) xs"
      unfolding uv using jn by (rule update_take_drop)
    moreover have "Suc (nat j) = nat (j + 1)" using j(1) by simp
    ultimately have "(u v)[nat j := ?g (xs ! nat j)]
        = map ?g (take (nat (j + 1)) xs) @ drop (nat (j + 1)) xs" by simp
    then have "scale_body_cpp A v nrm j u
        = Inr (h(v := map ?g (take (nat (j + 1)) xs) @ drop (nat (j + 1)) xs))"
      using ld lu jn j(1) u by (simp add: scale_body_cpp_def bind_def store_def)
    then show "\<exists>u'. scale_body_cpp A v nrm j u = Inr u' \<and> ?I (j + 1) u'" by blast
  qed (use assms in simp_all)
  then show ?thesis using assms(4) by simp
qed

lemma scale_loop_c_map:
  assumes "0 \<le> len" and "len mod 4 = 0" and "len \<le> INT_MAX"
    and "h v = xs" and "length xs = nat len"
  shows "for_loop 4 0 len (scale_body_c A v (f32x4_splat i)) h
           = Inr (h(v := map (\<lambda>x. f_mul A x i) xs))"
proof -
  let ?g = "\<lambda>x. f_mul A x i"
  let ?L = "\<lambda>n. map ?g (take n xs) @ drop n xs"
  let ?I = "\<lambda>(j::int) h'. h' = h(v := ?L (nat j))"
  have "\<exists>t. for_loop 4 0 len (scale_body_c A v (f32x4_splat i)) h = Inr t \<and> ?I len t"
  proof (rule for_loop_total[where I = ?I])
    show "?I 0 h" using assms(4) by auto
  next
    fix j and u :: "'a heap"
    assume j: "0 \<le> j" "j < len" "(len - j) mod 4 = 0" and u: "?I j u"
    have r: "j + 3 < len" using j by (rule lane_group_in_range)
    obtain n where n: "j = int n" using j(1) by (metis nat_0_le)
    have in_range: "n + 3 < length xs" using r n assms(5) by linarith
    have uv: "u v = ?L n" using u n by simp
    have lu: "length (u v) = length xs" unfolding uv by simp
    have e: "u v ! n = xs ! n" "u v ! (n + 1) = xs ! (n + 1)" "u v ! (n + 2) = xs ! (n + 2)"
      "u v ! (n + 3) = xs ! (n + 3)"
      unfolding uv using in_range by (simp_all add: nth_take_drop)
    have ld: "v128_load u v j = Inr (xs ! n, xs ! (n + 1), xs ! (n + 2), xs ! (n + 3))"
      using in_range n lu e by (simp add: v128_load_def nat_add_distrib)
    have u1: "(?L n)[n := ?g (xs ! n)] = ?L (Suc n)"
      using in_range by (intro update_take_drop) simp
    have u2: "(?L (Suc n))[Suc n := ?g (xs ! Suc n)] = ?L (Suc (Suc n))"
      using in_range by (intro update_take_drop) simp
    have u3: "(?L (Suc (Suc n)))[Suc (Suc n) := ?g (xs ! Suc (Suc n))] = ?L (Suc (Suc (Suc n)))"
      using in_range by (intro update_take_drop) simp
    have u4: "(?L (Suc (Suc (Suc n))))[Suc (Suc (Suc n)) := ?g (xs ! Suc (Suc (Suc n)))]
        = ?L (Suc (Suc (Suc (Suc n))))"
      using in_range by (intro update_take_drop) simp
    have s: "n + 1 = Suc n" "n + 2 = Suc (Suc n)" "n + 3 = Suc (Suc (Suc n))"
      "n + 4 = Suc (Suc (Suc (Suc n)))"
      by simp_all
    have w: "(u v)[n := ?g (xs ! n), n + 1 := ?g (xs ! (n + 1)), n + 2 := ?g (xs ! (n + 2)),
               n + 3 := ?g (xs ! (n + 3))] = ?L (n + 4)"
      unfolding uv s u1 u2 u3 u4 ..
    have "scale_body_c A v (f32x4_splat i) j u = Inr (u(v := ?L (n + 4)))"
      using ld lu in_range n w
      by (simp add: scale_body_c_def bind_def f32x4_splat_def f32x4_mul_def v128_store_def
          nat_add_distrib)
    moreover have "nat (j + 4) = n + 4" using n by simp
    ultimately show "\<exists>u'. scale_body_c A v (f32x4_splat i) j u = Inr u' \<and> ?I (j + 4) u'"
      using u by simp
  qed (use assms in simp_all)
  then show ?thesis using assms(5) by simp
qed

lemma lane_sq_simps [simp]:
  "lane_sq xs k 0 = 0"
  "lane_sq xs k (Suc m) = lane_sq xs k m + (valof (xs ! (4 * m + k)))\<^sup>2"
  by (simp_all add: lane_sq_def)

lemma lane_sq_nonneg: "0 \<le> lane_sq xs k m"
  by (simp add: lane_sq_def sum_nonneg)

lemma lane_sq_band:
  assumes "\<forall>x \<in> set xs. in_band (2 ^ 60) x" and "k < 4"
  shows "4 * m \<le> length xs \<Longrightarrow>
           (lane_sq xs k m = 0 \<or> 1 / 2 ^ 120 \<le> lane_sq xs k m) \<and>
           lane_sq xs k m \<le> real m * 2 ^ 120"
proof (induction m)
  case 0
  then show ?case by simp
next
  case (Suc m)
  define p where "p = (valof (xs ! (4 * m + k)))\<^sup>2"
  have "4 * m + k < length xs" using Suc.prems assms(2) by simp
  then have "in_band (2 ^ 60) (xs ! (4 * m + k))" using assms(1) by simp
  then have p: "p = 0 \<or> (1 / 2 ^ 120 \<le> p \<and> p \<le> 2 ^ 120)"
    unfolding p_def by (rule band_square)
  have IH: "lane_sq xs k m = 0 \<or> 1 / 2 ^ 120 \<le> lane_sq xs k m"
    "lane_sq xs k m \<le> real m * 2 ^ 120"
    using Suc by simp_all
  have p0: "0 \<le> p" by (simp add: p_def)
  have "lane_sq xs k m + p = 0 \<or> 1 / 2 ^ 120 \<le> lane_sq xs k m + p"
    using IH(1) p p0 lane_sq_nonneg[of xs k m] by auto
  moreover have "lane_sq xs k m + p \<le> real (Suc m) * 2 ^ 120"
  proof -
    have "p \<le> 2 ^ 120" using p by auto
    then have "lane_sq xs k m + p \<le> real m * 2 ^ 120 + 2 ^ 120" using IH(2) by linarith
    then show ?thesis by (simp add: algebra_simps)
  qed
  ultimately show ?case by (simp add: p_def)
qed

lemma lanes_total:
  "4 * m \<le> length xs \<Longrightarrow>
     lane_sq xs 0 m + lane_sq xs 1 m + lane_sq xs 2 m + lane_sq xs 3 m = sq_sum (take (4 * m) xs)"
proof (induction m)
  case 0
  then show ?case by simp
next
  case (Suc m)
  have i: "4 * m < length xs" "Suc (4 * m) < length xs" "Suc (Suc (4 * m)) < length xs"
    "Suc (Suc (Suc (4 * m))) < length xs"
    using Suc.prems by simp_all
  have e: "4 * Suc m = Suc (Suc (Suc (Suc (4 * m))))" by simp
  have "sq_sum (take (4 * Suc m) xs)
      = sq_sum (take (4 * m) xs) + (valof (xs ! (4 * m)))\<^sup>2 + (valof (xs ! Suc (4 * m)))\<^sup>2
        + (valof (xs ! Suc (Suc (4 * m))))\<^sup>2 + (valof (xs ! Suc (Suc (Suc (4 * m)))))\<^sup>2"
    unfolding e sq_sum_take_Suc[OF i(4)] sq_sum_take_Suc[OF i(3)] sq_sum_take_Suc[OF i(2)]
      sq_sum_take_Suc[OF i(1)] ..
  moreover have "4 * m + 1 = Suc (4 * m)" "4 * m + 2 = Suc (Suc (4 * m))"
    "4 * m + 3 = Suc (Suc (Suc (4 * m)))" by simp_all
  ultimately show ?case using Suc.IH Suc.prems
    by (simp add: numeral_3_eq_3 numeral_2_eq_2)
qed

lemma accumulate_general:
  fixes a q a' S p e u :: real
  assumes a: "\<bar>a - S\<bar> \<le> e * S" and q: "\<bar>q - p\<bar> \<le> e * p"
    and a': "\<bar>a' - (a + q)\<bar> \<le> u * (a + q)"
    and "0 \<le> S" and "0 \<le> p" and "0 \<le> e" and "e \<le> 1" and "0 \<le> u"
  shows "\<bar>a' - (S + p)\<bar> \<le> (e + 2 * u) * (S + p)"
proof -
  define T where "T = S + p"
  have T0: "0 \<le> T" using assms by (simp add: T_def)
  have s: "\<bar>(a + q) - T\<bar> \<le> e * T"
    using a q unfolding T_def by (simp add: algebra_simps)
  have "e * T \<le> 1 * T" using assms(7) T0 by (intro mult_right_mono)
  then have "a + q \<le> 2 * T" using s by linarith
  then have "u * (a + q) \<le> u * (2 * T)" using assms(8) by (intro mult_left_mono)
  then have "\<bar>a' - T\<bar> \<le> u * (2 * T) + e * T" using a' s by linarith
  then show ?thesis by (simp add: T_def algebra_simps)
qed

lemma approx_add:
  assumes "is_finite a" and "is_finite b" and "\<not> sign a" and "\<not> sign b"
    and a: "\<bar>valof a - A\<bar> \<le> e * A" and b: "\<bar>valof b - B\<bar> \<le> e * B"
    and e: "0 \<le> e" "e \<le> 1 / 2"
    and A: "A = 0 \<or> 1 / 2 ^ 120 \<le> A" "A \<le> 16 * 2 ^ 120"
    and B: "B = 0 \<or> 1 / 2 ^ 120 \<le> B" "B \<le> 16 * 2 ^ 120"
  shows "is_finite (fadd a b)" and "\<not> sign (fadd a b)"
    and "\<bar>valof (fadd a b) - (A + B)\<bar> \<le> (e + 2 * (1 / 2 ^ 24)) * (A + B)"
proof -
  have A0: "0 \<le> A" using A(1) by auto
  have B0: "0 \<le> B" using B(1) by auto
  have ar: "A / 2 \<le> valof a" "valof a \<le> A + A / 2" using close_range[OF a e(2) A0] by simp_all
  have br: "B / 2 \<le> valof b" "valof b \<le> B + B / 2" using close_range[OF b e(2) B0] by simp_all
  define s where "s = valof a + valof b"
  define K where "K = (2::real) ^ 120"
  have K0: "0 < K" by (simp add: K_def)
  have s_hi: "s < 2 powr 127"
  proof -
    have "s \<le> (16 * K + 16 * K / 2) + (16 * K + 16 * K / 2)"
      using ar(2) br(2) A(2) B(2) unfolding s_def K_def by linarith
    also have "\<dots> = 48 * K" by simp
    also have "\<dots> < 2 powr 127" by (simp add: K_def)
    finally show ?thesis .
  qed
  have s_lo: "s = 0 \<or> 2 powr (- 126) \<le> s"
  proof (cases "A = 0 \<and> B = 0")
    case True
    then have "valof a = 0" "valof b = 0" using a b by simp_all
    then show ?thesis by (simp add: s_def)
  next
    case False
    define c where "c = 1 / K"
    have "c \<le> A + B" using False A(1) B(1) A0 B0 unfolding K_def c_def by auto
    then have "c / 2 \<le> s" using ar(1) br(1) unfolding s_def by linarith
    moreover have "(2::real) powr (- 126) \<le> c / 2" by (simp add: powr_neg_numeral K_def c_def)
    ultimately show ?thesis by linarith
  qed
  have "valof a + valof b = 0 \<or>
      (2 powr (- 126) \<le> valof a + valof b \<and> valof a + valof b < 2 powr 127)"
    using s_lo s_hi by (auto simp: s_def)
  note r = fadd_value[OF assms(1,2,3,4) this]
  show "is_finite (fadd a b)" by (rule r(1))
  show "\<not> sign (fadd a b)" using assms(3,4) by (rule sign_fadd)
  show "\<bar>valof (fadd a b) - (A + B)\<bar> \<le> (e + 2 * (1 / 2 ^ 24)) * (A + B)"
  proof (rule accumulate_general[where a = "valof a" and q = "valof b"])
    show "\<bar>valof (fadd a b) - (valof a + valof b)\<bar> \<le> 1 / 2 ^ 24 * (valof a + valof b)"
      using r(2) by simp
  qed (use a b A0 B0 e in simp_all)
qed

lemma lane_ok_zero: "lane_ok xs k 0 pos_zero"
  by (simp add: lane_ok_def)

lemma lane_ok_step:
  assumes "lane_ok xs k m s" and "k < 4" and "4 * Suc m \<le> length xs" and "m \<le> 4"
    and band: "\<forall>x \<in> set xs. in_band (2 ^ 60) x"
  shows "lane_ok xs k (Suc m) (fadd s (fmul (xs ! (4 * m + k)) (xs ! (4 * m + k))))"
proof -
  define x where "x = xs ! (4 * m + k)"
  have "4 * m + k < length xs" using assms(2,3) by simp
  then have x: "in_band (2 ^ 60) x" using band by (simp add: x_def)
  have m: "4 * m \<le> length xs" using assms(3) by simp
  have s: "is_finite s" "\<not> sign s"
    and a: "\<bar>valof s - lane_sq xs k m\<bar> \<le> (2 * real m + 1) * (1 / 2 ^ 24) * lane_sq xs k m"
    using assms(1) by (simp_all add: lane_ok_def)
  have S1: "lane_sq xs k m = 0 \<or> 1 / 2 ^ 120 \<le> lane_sq xs k m"
    using lane_sq_band[OF band assms(2) m] by simp
  have "lane_sq xs k m \<le> real m * 2 ^ 120" using lane_sq_band[OF band assms(2) m] by simp
  also have "\<dots> \<le> 16 * 2 ^ 120" using assms(4) by simp
  finally have S2: "lane_sq xs k m \<le> 16 * 2 ^ 120" .
  have c: "1 \<le> 2 * real m + 1" "2 * real m + 1 \<le> 33" using assms(4) by simp_all
  note st = square_accumulate[OF s a x S1 S2 c]
  have e1: "lane_sq xs k (Suc m) = lane_sq xs k m + (valof x)\<^sup>2" by (simp add: x_def)
  have e2: "2 * real (Suc m) + 1 = 2 * real m + 1 + 2" by simp
  show ?thesis
    unfolding lane_ok_def x_def[symmetric] e1 e2 using st by blast
qed

lemma norm_loop_c_value:
  assumes "0 \<le> len" and "len \<le> 16" and "len mod 4 = 0" and "h v = xs"
    and "length xs = nat len"
    and band: "\<forall>x \<in> set xs. in_band (2 ^ 60) x"
  shows "\<exists>s0 s1 s2 s3.
           for_loop 4 0 len (norm_body_c ieee v) (h, f32x4_splat pos_zero)
             = Inr (h, s0, s1, s2, s3) \<and>
           lane_ok xs 0 (nat len div 4) s0 \<and> lane_ok xs 1 (nat len div 4) s1 \<and>
           lane_ok xs 2 (nat len div 4) s2 \<and> lane_ok xs 3 (nat len div 4) s3"
proof -
  let ?I = "\<lambda>(j::int) st. case st of (h', s0, s1, s2, s3) \<Rightarrow>
              h' = h \<and> lane_ok xs 0 (nat j div 4) s0 \<and> lane_ok xs 1 (nat j div 4) s1 \<and>
              lane_ok xs 2 (nat j div 4) s2 \<and> lane_ok xs 3 (nat j div 4) s3"
  have "\<exists>t. for_loop 4 0 len (norm_body_c ieee v) (h, f32x4_splat pos_zero) = Inr t \<and> ?I len t"
  proof (rule for_loop_total[where I = ?I])
    show "?I 0 (h, f32x4_splat pos_zero)" by (simp add: f32x4_splat_def lane_ok_zero)
  next
    fix j and u :: "f32 heap \<times> f32 v128"
    assume j: "0 \<le> j" "j < len" "(len - j) mod 4 = 0" and u: "?I j u"
    have r: "j + 3 < len" using j by (rule lane_group_in_range)
    have "j mod 4 = 0" using j(3) assms(3) by presburger
    then obtain q where q: "j = 4 * q" by (auto simp: mod_eq_0_iff_dvd)
    define m where "m = nat q"
    have m: "j = 4 * int m" using q j(1) by (simp add: m_def)
    have nj: "nat j = 4 * m" "nat j div 4 = m" "nat (j + 4) div 4 = Suc m"
      using m by simp_all
    have "int (4 * Suc m) \<le> len" using r m by simp
    then have in_range: "4 * Suc m \<le> length xs" using assms(5) by linarith
    have m4: "m \<le> 4" using r m assms(2) by linarith
    obtain s0 s1 s2 s3 where u': "u = (h, s0, s1, s2, s3)"
      and l: "lane_ok xs 0 m s0" "lane_ok xs 1 m s1" "lane_ok xs 2 m s2" "lane_ok xs 3 m s3"
      using u unfolding nj by (cases u) auto
    have ld: "v128_load h v j
        = Inr (xs ! (4 * m + 0), xs ! (4 * m + 1), xs ! (4 * m + 2), xs ! (4 * m + 3))"
    proof -
      have nm: "nat (4 * int m) = 4 * m" by (simp add: nat_mult_distrib)
      show ?thesis
        using in_range assms(4) unfolding m
        by (simp add: v128_load_def nat_add_distrib nm numeral_3_eq_3 numeral_2_eq_2)
    qed
    note st = lane_ok_step[OF l(1) _ in_range m4 band] lane_ok_step[OF l(2) _ in_range m4 band]
      lane_ok_step[OF l(3) _ in_range m4 band] lane_ok_step[OF l(4) _ in_range m4 band]
    have "norm_body_c ieee v j u =
        Inr (h, fadd s0 (fmul (xs ! (4 * m + 0)) (xs ! (4 * m + 0))),
                fadd s1 (fmul (xs ! (4 * m + 1)) (xs ! (4 * m + 1))),
                fadd s2 (fmul (xs ! (4 * m + 2)) (xs ! (4 * m + 2))),
                fadd s3 (fmul (xs ! (4 * m + 3)) (xs ! (4 * m + 3))))"
      using ld by (simp add: u' norm_body_c_def bind_def f32x4_add_def f32x4_mul_def)
    moreover have "?I (j + 4) (h, fadd s0 (fmul (xs ! (4 * m + 0)) (xs ! (4 * m + 0))),
                fadd s1 (fmul (xs ! (4 * m + 1)) (xs ! (4 * m + 1))),
                fadd s2 (fmul (xs ! (4 * m + 2)) (xs ! (4 * m + 2))),
                fadd s3 (fmul (xs ! (4 * m + 3)) (xs ! (4 * m + 3))))"
      unfolding nj using st by simp
    ultimately show "\<exists>u'. norm_body_c ieee v j u = Inr u' \<and> ?I (j + 4) u'" by blast
  qed (use assms in \<open>simp_all add: INT_MAX_def\<close>)
  then show ?thesis by auto
qed

lemma band_add:
  fixes A B c :: real
  assumes "A = 0 \<or> c \<le> A" and "B = 0 \<or> c \<le> B" and "0 \<le> A" and "0 \<le> B"
  shows "A + B = 0 \<or> c \<le> A + B"
  using assms by auto

lemma lane_sum_value:
  assumes l: "lane_ok xs 0 m s0" "lane_ok xs 1 m s1" "lane_ok xs 2 m s2" "lane_ok xs 3 m s3"
    and "m \<le> 4" and "length xs = 4 * m"
    and band: "\<forall>x \<in> set xs. in_band (2 ^ 60) x"
  shows "is_finite (lane_sum ieee (s0, s1, s2, s3))"
    and "\<not> sign (lane_sum ieee (s0, s1, s2, s3))"
    and "\<bar>valof (lane_sum ieee (s0, s1, s2, s3)) - sq_sum xs\<bar> \<le> 33 * (1 / 2 ^ 24) * sq_sum xs"
proof -
  define u :: real where "u = 1 / 2 ^ 24"
  define K :: real where "K = 2 ^ 120"
  define c :: real where "c = 1 / K"
  have u0: "0 \<le> u" "u \<le> 1 / 46" by (simp_all add: u_def)
  have K0: "0 < K" by (simp add: K_def)
  have add: "is_finite (fadd a b) \<and> \<not> sign (fadd a b) \<and>
      \<bar>valof (fadd a b) - (A + B)\<bar> \<le> (e + 2 * u) * (A + B)"
    if "is_finite a" "is_finite b" "\<not> sign a" "\<not> sign b"
      "\<bar>valof a - A\<bar> \<le> e * A" "\<bar>valof b - B\<bar> \<le> e * B" "0 \<le> e" "e \<le> 1 / 2"
      "A = 0 \<or> c \<le> A" "A \<le> 16 * K" "B = 0 \<or> c \<le> B" "B \<le> 16 * K"
    for a b A B e
    using approx_add[of a b A e B] that unfolding c_def K_def u_def by blast
  define L where "L = (\<lambda>k. lane_sq xs k m)"
  have len: "4 * m \<le> length xs" using assms(6) by simp
  have L0: "0 \<le> L k" for k by (simp add: L_def lane_sq_nonneg)
  have Lb: "L k = 0 \<or> c \<le> L k" "L k \<le> 4 * K" if "k < 4" for k
  proof -
    show "L k = 0 \<or> c \<le> L k"
      using lane_sq_band[OF band that len] unfolding L_def c_def K_def by blast
    have "L k \<le> real m * K" using lane_sq_band[OF band that len] unfolding L_def K_def by blast
    also have "\<dots> \<le> 4 * K" using assms(5) K0 by (intro mult_right_mono) simp_all
    finally show "L k \<le> 4 * K" .
  qed
  have ok: "is_finite s \<and> \<not> sign s \<and> \<bar>valof s - L k\<bar> \<le> e * L k"
    if "lane_ok xs k m s" "9 * u \<le> e" for k s e
  proof -
    have "(2 * real m + 1) * u \<le> 9 * u"
      using assms(5) u0(1) by (intro mult_right_mono) simp_all
    then have "(2 * real m + 1) * u \<le> e" using that(2) by linarith
    then have "(2 * real m + 1) * u * L k \<le> e * L k"
      using L0[of k] by (intro mult_right_mono)
    moreover have "is_finite s" "\<not> sign s"
      "\<bar>valof s - L k\<bar> \<le> (2 * real m + 1) * u * L k"
      using that(1) unfolding lane_ok_def L_def u_def by blast+
    ultimately show ?thesis by linarith
  qed
  have b0: "L 0 = 0 \<or> c \<le> L 0" "L 0 \<le> 4 * K" using Lb[of 0] by simp_all
  have b1: "L 1 = 0 \<or> c \<le> L 1" "L 1 \<le> 4 * K" using Lb[of 1] by simp_all
  have b2: "L 2 = 0 \<or> c \<le> L 2" "L 2 \<le> 4 * K" using Lb[of 2] by simp_all
  have b3: "L 3 = 0 \<or> c \<le> L 3" "L 3 \<le> 4 * K" using Lb[of 3] by simp_all
  define T1 where "T1 = L 0 + L 1"
  define T2 where "T2 = T1 + L 2"
  have T1: "T1 = 0 \<or> c \<le> T1" "T1 \<le> 8 * K" "0 \<le> T1"
    unfolding T1_def using band_add[OF b0(1) b1(1) L0 L0] b0(2) b1(2) L0[of 0] L0[of 1]
    by linarith+
  have T2: "T2 = 0 \<or> c \<le> T2" "T2 \<le> 12 * K" "0 \<le> T2"
    unfolding T2_def using band_add[OF T1(1) b2(1) T1(3) L0] T1(2,3) b2(2) L0[of 2]
    by linarith+
  have a1: "is_finite (fadd s0 s1) \<and> \<not> sign (fadd s0 s1) \<and>
      \<bar>valof (fadd s0 s1) - T1\<bar> \<le> (9 * u + 2 * u) * T1"
    unfolding T1_def
  proof (rule add)
    show "\<bar>valof s0 - L 0\<bar> \<le> 9 * u * L 0" "is_finite s0" "\<not> sign s0"
      using ok[OF l(1), of "9 * u"] by simp_all
    show "\<bar>valof s1 - L 1\<bar> \<le> 9 * u * L 1" "is_finite s1" "\<not> sign s1"
      using ok[OF l(2), of "9 * u"] by simp_all
    show "0 \<le> 9 * u" "9 * u \<le> 1 / 2" using u0 by simp_all
    show "L 0 \<le> 16 * K" "L 1 \<le> 16 * K" using b0(2) b1(2) K0 by linarith+
  qed (rule b0(1) b1(1))+
  have a2: "is_finite (fadd (fadd s0 s1) s2) \<and> \<not> sign (fadd (fadd s0 s1) s2) \<and>
      \<bar>valof (fadd (fadd s0 s1) s2) - T2\<bar> \<le> (11 * u + 2 * u) * T2"
    unfolding T2_def
  proof (rule add)
    show "is_finite (fadd s0 s1)" "\<not> sign (fadd s0 s1)" using a1 by simp_all
    show "\<bar>valof (fadd s0 s1) - T1\<bar> \<le> 11 * u * T1" using a1 by (simp add: algebra_simps)
    show "\<bar>valof s2 - L 2\<bar> \<le> 11 * u * L 2" "is_finite s2" "\<not> sign s2"
      using ok[OF l(3), of "11 * u"] u0 by simp_all
    show "0 \<le> 11 * u" "11 * u \<le> 1 / 2" using u0 by simp_all
    show "T1 \<le> 16 * K" "L 2 \<le> 16 * K" using T1(2) b2(2) K0 by linarith+
  qed (rule T1(1) b2(1))+
  have a3: "is_finite (fadd (fadd (fadd s0 s1) s2) s3) \<and>
      \<not> sign (fadd (fadd (fadd s0 s1) s2) s3) \<and>
      \<bar>valof (fadd (fadd (fadd s0 s1) s2) s3) - (T2 + L 3)\<bar> \<le> (13 * u + 2 * u) * (T2 + L 3)"
  proof (rule add)
    show "is_finite (fadd (fadd s0 s1) s2)" "\<not> sign (fadd (fadd s0 s1) s2)"
      using a2 by simp_all
    show "\<bar>valof (fadd (fadd s0 s1) s2) - T2\<bar> \<le> 13 * u * T2"
      using a2 by (simp add: algebra_simps)
    show "\<bar>valof s3 - L 3\<bar> \<le> 13 * u * L 3" "is_finite s3" "\<not> sign s3"
      using ok[OF l(4), of "13 * u"] u0 by simp_all
    show "0 \<le> 13 * u" "13 * u \<le> 1 / 2" using u0 by simp_all
    show "T2 \<le> 16 * K" "L 3 \<le> 16 * K" using T2(2) b3(2) K0 by linarith+
  qed (rule T2(1) b3(1))+
  have tot: "T2 + L 3 = sq_sum xs"
    using lanes_total[OF len] assms(6) by (simp add: T2_def T1_def L_def)
  have ls: "lane_sum ieee (s0, s1, s2, s3) = fadd (fadd (fadd s0 s1) s2) s3"
    by (simp add: lane_sum_def)
  show "is_finite (lane_sum ieee (s0, s1, s2, s3))" unfolding ls using a3 by blast
  show "\<not> sign (lane_sum ieee (s0, s1, s2, s3))" unfolding ls using a3 by blast
  have "\<bar>valof (fadd (fadd (fadd s0 s1) s2) s3) - sq_sum xs\<bar> \<le> (13 * u + 2 * u) * sq_sum xs"
    using a3 unfolding tot by blast
  moreover have "(13 * u + 2 * u) * sq_sum xs \<le> 33 * u * sq_sum xs"
    using sq_sum_nonneg[of xs] u0(1) by (intro mult_right_mono) simp_all
  ultimately show "\<bar>valof (lane_sum ieee (s0, s1, s2, s3)) - sq_sum xs\<bar>
      \<le> 33 * (1 / 2 ^ 24) * sq_sum xs"
    unfolding ls u_def by linarith
qed

section \<open>Normalisation to unit length\<close>

text \<open>
  One call of \<open>normalize\<close> on a vector of at most 16 elements, each zero or of a magnitude
  between \<open>2^-60\<close> and \<open>2^60\<close>, and not all zero: the norm computed is within 36 units of
  roundoff of the L2 norm, it is positive, so that vector\_simd.cpp scales, and every
  element stored is within 76 units of roundoff of the exact quotient.
\<close>

lemma norm_range:
  assumes band: "\<forall>x \<in> set xs. in_band (2 ^ 60) x" and "length xs \<le> 16" and "sq_sum xs \<noteq> 0"
  shows "1 / 2 ^ 60 \<le> l2_norm xs" and "l2_norm xs \<le> 4 * 2 ^ 60"
    and "sq_sum xs = 0 \<or> 1 / 2 ^ 120 \<le> sq_sum xs" and "sq_sum xs \<le> 16 * 2 ^ 120"
proof -
  show 1: "sq_sum xs = 0 \<or> 1 / 2 ^ 120 \<le> sq_sum xs" using sq_sum_band(1)[OF band] .
  have "sq_sum xs \<le> real (length xs) * 2 ^ 120" using sq_sum_band(2)[OF band] .
  also have "\<dots> \<le> 16 * 2 ^ 120" using assms(2) by simp
  finally show 2: "sq_sum xs \<le> 16 * 2 ^ 120" .
  have "(1 / 2 ^ 60)\<^sup>2 \<le> sq_sum xs" using 1 assms(3) by (simp add: power_divide)
  then show "1 / 2 ^ 60 \<le> l2_norm xs" unfolding l2_norm_def by (intro real_le_rsqrt)
  have "sq_sum xs \<le> (4 * 2 ^ 60)\<^sup>2" using 2 by simp
  then show "l2_norm xs \<le> 4 * 2 ^ 60" unfolding l2_norm_def by (intro real_le_lsqrt) simp_all
qed

lemma normalize_cpp_stage:
  assumes "0 \<le> len" and "len \<le> 16" and "h v = xs" and "length xs = nat len"
    and band: "\<forall>x \<in> set xs. in_band (2 ^ 60) x" and nz: "sq_sum xs \<noteq> 0"
  shows "\<exists>ws. normalize_cpp ieee h v len = Inr (h(v := ws)) \<and> scaled_by_norm xs ws"
proof -
  obtain acc where l: "for_loop 1 0 len (norm_body_cpp ieee v) (h, pos_zero) = Inr (h, acc)"
    and acc: "is_finite acc" "\<not> sign acc"
    and a: "\<bar>valof acc - sq_sum xs\<bar> \<le> 33 * (1 / 2 ^ 24) * sq_sum xs"
    using norm_loop_cpp_value[of len h v xs] assms by blast
  have n16: "length xs \<le> 16" using assms(2,4) by simp
  note r = norm_range[OF band n16 nz]
  define nrm where "nrm = fsqrt acc"
  have nrm: "is_finite nrm" "close_to (36 / 2 ^ 24) (valof nrm) (l2_norm xs)"
    using norm_from_sum[OF acc a r(3,4)] by (simp_all add: nrm_def l2_norm_def)
  have pos: "0 < valof nrm" using norm_facts(3)[OF nrm(2) r(1,2)] .
  have g: "fgt nrm pos_zero" using fgt_zero_iff[OF nrm(1)] pos by simp
  have n: "norm_cpp ieee h v len = Inr (h, nrm)"
    using l by (simp add: norm_cpp_def bind_def nrm_def)
  have im: "len \<le> INT_MAX" using assms(2) by (simp add: INT_MAX_def)
  have "normalize_cpp ieee h v len = Inr (h(v := map (\<lambda>x. fdiv x nrm) xs))"
    using n g scale_loop_cpp_map[of len h v xs ieee nrm] assms im
    by (simp add: normalize_cpp_def bind_def)
  moreover have "scaled_by_norm xs (map (\<lambda>x. fdiv x nrm) xs)"
    unfolding scaled_by_norm_def
  proof (intro conjI allI impI)
    fix i assume i: "i < length xs"
    then have x: "in_band (2 ^ 60) (xs ! i)" using band by simp
    show "is_finite (map (\<lambda>x. fdiv x nrm) xs ! i)"
      using scale_elem_cpp(1)[OF x nrm r(1,2)] i by simp
    show "close_to (76 / 2 ^ 24) (valof (map (\<lambda>x. fdiv x nrm) xs ! i))
        (valof (xs ! i) / l2_norm xs)"
      using scale_elem_cpp(2)[OF x nrm r(1,2)] i by simp
  qed simp
  ultimately show ?thesis by blast
qed

lemma normalize_c_stage:
  assumes "0 \<le> len" and "len \<le> 16" and "len mod 4 = 0" and "h v = xs"
    and "length xs = nat len"
    and band: "\<forall>x \<in> set xs. in_band (2 ^ 60) x" and nz: "sq_sum xs \<noteq> 0"
  shows "\<exists>ws. normalize_c ieee h v len = Inr (h(v := ws)) \<and> scaled_by_norm xs ws"
proof -
  obtain s0 s1 s2 s3 where
    l: "for_loop 4 0 len (norm_body_c ieee v) (h, f32x4_splat pos_zero) = Inr (h, s0, s1, s2, s3)"
    and ok: "lane_ok xs 0 (nat len div 4) s0" "lane_ok xs 1 (nat len div 4) s1"
      "lane_ok xs 2 (nat len div 4) s2" "lane_ok xs 3 (nat len div 4) s3"
    using norm_loop_c_value[of len h v xs] assms by blast
  have m4: "nat len div 4 \<le> 4" using assms(1,2) by simp
  obtain q where q: "len = 4 * q" using assms(3) by (auto simp: mod_eq_0_iff_dvd)
  have "nat len = 4 * nat q" unfolding q by (simp add: nat_mult_distrib)
  then have lm: "length xs = 4 * (nat len div 4)" using assms(5) by simp
  define acc where "acc = lane_sum ieee (s0, s1, s2, s3)"
  have acc: "is_finite acc" "\<not> sign acc"
    and a: "\<bar>valof acc - sq_sum xs\<bar> \<le> 33 * (1 / 2 ^ 24) * sq_sum xs"
    using lane_sum_value[OF ok m4 lm band] by (simp_all add: acc_def)
  have n16: "length xs \<le> 16" using assms(2,5) by simp
  note r = norm_range[OF band n16 nz]
  define nrm where "nrm = fsqrt acc"
  have nrm: "is_finite nrm" "close_to (36 / 2 ^ 24) (valof nrm) (l2_norm xs)"
    using norm_from_sum[OF acc a r(3,4)] by (simp_all add: nrm_def l2_norm_def)
  have n: "norm_c ieee h v len = Inr (h, nrm)"
    using l by (simp add: norm_c_def bind_def nrm_def acc_def)
  have im: "len \<le> INT_MAX" using assms(2) by (simp add: INT_MAX_def)
  have "normalize_c ieee h v len = Inr (h(v := map (\<lambda>x. fmul x (fdiv f32_one nrm)) xs))"
    using n scale_loop_c_map[of len h v xs ieee "fdiv f32_one nrm"] assms im
    by (simp add: normalize_c_def bind_def)
  moreover have "scaled_by_norm xs (map (\<lambda>x. fmul x (fdiv f32_one nrm)) xs)"
    unfolding scaled_by_norm_def
  proof (intro conjI allI impI)
    fix i assume i: "i < length xs"
    then have x: "in_band (2 ^ 60) (xs ! i)" using band by simp
    show "is_finite (map (\<lambda>x. fmul x (fdiv f32_one nrm)) xs ! i)"
      using scale_elem_c(1)[OF x nrm r(1,2)] i by simp
    show "close_to (76 / 2 ^ 24) (valof (map (\<lambda>x. fmul x (fdiv f32_one nrm)) xs ! i))
        (valof (xs ! i) / l2_norm xs)"
      using scale_elem_c(2)[OF x nrm r(1,2)] i by simp
  qed simp
  ultimately show ?thesis by blast
qed

text \<open>
  The vector that a call leaves behind has a sum of squares between \<open>(1 - e)^2\<close> and
  \<open>(1 + e)^2\<close>, for \<open>e\<close> the 76 units of roundoff, so its norm is within \<open>e\<close> of 1.  Its
  elements are again zero or in the range that the first call requires, so a second call
  scales each element by a norm within \<open>e\<close> of 1, with an error of \<open>e\<close>.
\<close>

lemma sq_close:
  fixes w t e :: real
  assumes "close_to e w t" and "0 \<le> e" and "e \<le> 1"
  shows "(1 - e)\<^sup>2 * t\<^sup>2 \<le> w\<^sup>2" and "w\<^sup>2 \<le> (1 + e)\<^sup>2 * t\<^sup>2"
proof -
  have d: "\<bar>w - t\<bar> \<le> e * \<bar>t\<bar>" using assms(1) by (simp add: close_to_def)
  have lo: "(1 - e) * \<bar>t\<bar> \<le> \<bar>w\<bar>" using d by (simp add: algebra_simps)
  have hi: "\<bar>w\<bar> \<le> (1 + e) * \<bar>t\<bar>" using d by (simp add: algebra_simps)
  have "0 \<le> (1 - e) * \<bar>t\<bar>" using assms(3) by simp
  then have "((1 - e) * \<bar>t\<bar>)\<^sup>2 \<le> \<bar>w\<bar>\<^sup>2" using lo by (intro power_mono)
  then show "(1 - e)\<^sup>2 * t\<^sup>2 \<le> w\<^sup>2" by (simp add: power_mult_distrib)
  have "\<bar>w\<bar>\<^sup>2 \<le> ((1 + e) * \<bar>t\<bar>)\<^sup>2" using hi by (intro power_mono) simp_all
  then show "w\<^sup>2 \<le> (1 + e)\<^sup>2 * t\<^sup>2" by (simp add: power_mult_distrib)
qed

lemma l2_norm_square: "(l2_norm xs)\<^sup>2 = sq_sum xs"
  by (simp add: l2_norm_def sq_sum_nonneg)

lemma l2_norm_nonneg: "0 \<le> l2_norm xs"
  by (simp add: l2_norm_def sq_sum_nonneg)

lemma scaled_sums:
  assumes s: "scaled_by_norm xs ws" and nz: "sq_sum xs \<noteq> 0"
  shows "(1 - 76 / 2 ^ 24)\<^sup>2 \<le> sq_sum ws" and "sq_sum ws \<le> (1 + 76 / 2 ^ 24)\<^sup>2"
proof -
  define e :: real where "e = 76 / 2 ^ 24"
  define N where "N = l2_norm xs"
  have e: "0 \<le> e" "e \<le> 1" by (simp_all add: e_def)
  have len: "length ws = length xs" using s by (simp add: scaled_by_norm_def)
  have c: "close_to e (valof (ws ! i)) (valof (xs ! i) / N)" if "i < length xs" for i
    using s that by (simp add: scaled_by_norm_def e_def N_def)
  have N2: "N\<^sup>2 = sq_sum xs" by (simp add: N_def l2_norm_square)
  have b: "j \<le> length xs \<Longrightarrow>
      (1 - e)\<^sup>2 * (sq_sum (take j xs) / N\<^sup>2) \<le> sq_sum (take j ws) \<and>
      sq_sum (take j ws) \<le> (1 + e)\<^sup>2 * (sq_sum (take j xs) / N\<^sup>2)" for j
  proof (induction j)
    case 0
    then show ?case by simp
  next
    case (Suc j)
    then have j: "j < length xs" "j < length ws" using len by simp_all
    define t where "t = valof (xs ! j) / N"
    define w where "w = valof (ws ! j)"
    define A where "A = sq_sum (take j xs) / N\<^sup>2"
    define B where "B = sq_sum (take j ws)"
    have q: "(1 - e)\<^sup>2 * t\<^sup>2 \<le> w\<^sup>2" "w\<^sup>2 \<le> (1 + e)\<^sup>2 * t\<^sup>2"
      using sq_close[OF c[OF j(1)] e] by (simp_all add: t_def w_def)
    have IH: "(1 - e)\<^sup>2 * A \<le> B" "B \<le> (1 + e)\<^sup>2 * A"
      using Suc by (simp_all add: A_def B_def)
    have x: "sq_sum (take (Suc j) xs) / N\<^sup>2 = A + t\<^sup>2"
      unfolding sq_sum_take_Suc[OF j(1)] A_def t_def by (simp add: add_divide_distrib power_divide)
    have y: "sq_sum (take (Suc j) ws) = B + w\<^sup>2"
      unfolding sq_sum_take_Suc[OF j(2)] B_def w_def ..
    have "(1 - e)\<^sup>2 * (A + t\<^sup>2) \<le> B + w\<^sup>2"
      using IH(1) q(1) by (simp add: distrib_left)
    moreover have "B + w\<^sup>2 \<le> (1 + e)\<^sup>2 * (A + t\<^sup>2)"
      using IH(2) q(2) by (simp add: distrib_left)
    ultimately show ?case unfolding x y by simp
  qed
  have one: "sq_sum xs / N\<^sup>2 = 1" using nz by (simp add: N2)
  have "(1 - e)\<^sup>2 * (sq_sum xs / N\<^sup>2) \<le> sq_sum ws \<and>
      sq_sum ws \<le> (1 + e)\<^sup>2 * (sq_sum xs / N\<^sup>2)"
    using b[of "length xs"] len by simp
  then have "(1 - e)\<^sup>2 \<le> sq_sum ws \<and> sq_sum ws \<le> (1 + e)\<^sup>2"
    unfolding one by simp
  then show "(1 - 76 / 2 ^ 24)\<^sup>2 \<le> sq_sum ws" and "sq_sum ws \<le> (1 + 76 / 2 ^ 24)\<^sup>2"
    by (simp_all add: e_def)
qed

lemma unit_norm:
  assumes "scaled_by_norm xs ws" and "sq_sum xs \<noteq> 0"
  shows "1 - 76 / 2 ^ 24 \<le> l2_norm ws" and "l2_norm ws \<le> 1 + 76 / 2 ^ 24"
    and "sq_sum ws \<noteq> 0"
proof -
  note b = scaled_sums[OF assms]
  show "1 - 76 / 2 ^ 24 \<le> l2_norm ws"
    unfolding l2_norm_def using b(1) by (rule real_le_rsqrt)
  show "l2_norm ws \<le> 1 + 76 / 2 ^ 24"
    unfolding l2_norm_def using b(2) by (intro real_le_lsqrt) simp_all
  have "(0::real) < (1 - 76 / 2 ^ 24)\<^sup>2" by simp
  then show "sq_sum ws \<noteq> 0" using b(1) by linarith
qed

lemma elem_le_norm:
  assumes "i < length ws"
  shows "\<bar>valof (ws ! i)\<bar> \<le> l2_norm ws"
proof -
  have "ws = take i ws @ ws ! i # drop (Suc i) ws" using assms by (rule id_take_nth_drop)
  then have "sq_sum ws = sq_sum (take i ws) + ((valof (ws ! i))\<^sup>2 + sq_sum (drop (Suc i) ws))"
    by (metis sq_sum_simps(2,3))
  then have "(valof (ws ! i))\<^sup>2 \<le> sq_sum ws"
    using sq_sum_nonneg[of "take i ws"] sq_sum_nonneg[of "drop (Suc i) ws"] by linarith
  then have "\<bar>valof (ws ! i)\<bar>\<^sup>2 \<le> sq_sum ws" by simp
  then show ?thesis unfolding l2_norm_def by (rule real_le_rsqrt)
qed

lemma idempotent_step:
  assumes s: "scaled_by_norm xs ws" and s': "scaled_by_norm ws ws'" and nz: "sq_sum xs \<noteq> 0"
    and i: "i < length xs"
  shows "\<bar>valof (ws' ! i) - valof (ws ! i)\<bar> \<le> 152 / 2 ^ 24"
proof -
  define e :: real where "e = 76 / 2 ^ 24"
  define M where "M = l2_norm ws"
  define w where "w = valof (ws ! i)"
  define w' where "w' = valof (ws' ! i)"
  have e: "0 \<le> e" "e \<le> 1 / 2" by (simp_all add: e_def)
  have len: "length ws = length xs" using s by (simp add: scaled_by_norm_def)
  have M: "1 - e \<le> M" "M \<le> 1 + e" using unit_norm(1,2)[OF s nz] by (simp_all add: M_def e_def)
  have M0: "0 < M" using M(1) e(2) by linarith
  have wM: "\<bar>w\<bar> \<le> M" using elem_le_norm[of i ws] i len by (simp add: w_def M_def)
  have "close_to e w' (w / M)"
    using s' i len by (simp add: scaled_by_norm_def e_def w_def w'_def M_def)
  then have d1: "\<bar>w' - w / M\<bar> \<le> e * \<bar>w / M\<bar>" by (simp add: close_to_def)
  have q: "\<bar>w / M\<bar> \<le> 1" using wM M0 by (simp add: abs_divide)
  have "e * \<bar>w / M\<bar> \<le> e * 1" using q e(1) by (intro mult_left_mono)
  then have a: "\<bar>w' - w / M\<bar> \<le> e" using d1 by linarith
  have "w / M - w = (w / M) * (1 - M)" using M0 by (simp add: field_simps)
  then have "\<bar>w / M - w\<bar> = \<bar>w / M\<bar> * \<bar>1 - M\<bar>" by (simp add: abs_mult)
  also have "\<dots> \<le> 1 * \<bar>1 - M\<bar>" using q by (intro mult_right_mono) simp_all
  also have "\<dots> \<le> e" using M by (simp add: abs_le_iff)
  finally have b: "\<bar>w / M - w\<bar> \<le> e" .
  have "\<bar>w' - w\<bar> \<le> 2 * e" using a b by linarith
  then show ?thesis by (simp add: w_def w'_def e_def)
qed

lemma in_band_weaken:
  assumes "in_band (2 ^ 20) x"
  shows "in_band (2 ^ 60) x"
proof -
  have "(1::real) / 2 ^ 60 \<le> 1 / 2 ^ 20" "(2::real) ^ 20 \<le> 2 ^ 60" by simp_all
  then show ?thesis using assms unfolding in_band_def by (meson order_trans)
qed

lemma sq_sum_small:
  "\<forall>x \<in> set xs. in_band (2 ^ 20) x \<Longrightarrow> sq_sum xs \<le> real (length xs) * 2 ^ 40"
proof (induction xs)
  case Nil
  then show ?case by simp
next
  case (Cons x xs)
  have "\<bar>valof x\<bar> \<le> 2 ^ 20" using Cons.prems by (auto simp: in_band_def)
  then have "\<bar>valof x\<bar>\<^sup>2 \<le> (2 ^ 20)\<^sup>2" by (intro power_mono) simp_all
  then have "(valof x)\<^sup>2 \<le> 2 ^ 40" by simp
  moreover have "sq_sum xs \<le> real (length xs) * 2 ^ 40" using Cons by simp
  ultimately show ?case by (simp add: algebra_simps)
qed

lemma sq_sum_nonzero:
  assumes "x \<in> set xs" and "valof x \<noteq> 0"
  shows "sq_sum xs \<noteq> 0"
proof -
  obtain i where i: "i < length xs" "xs ! i = x" using assms(1) by (auto simp: in_set_conv_nth)
  have "0 < \<bar>valof (xs ! i)\<bar>" using i(2) assms(2) by simp
  then have "0 < l2_norm xs" using elem_le_norm[OF i(1)] by linarith
  then show ?thesis by (auto simp: l2_norm_def)
qed

lemma scaled_band:
  assumes s: "scaled_by_norm xs ws" and band: "\<forall>x \<in> set xs. in_band (2 ^ 20) x"
    and n16: "length xs \<le> 16" and nz: "sq_sum xs \<noteq> 0"
  shows "\<forall>w \<in> set ws. in_band (2 ^ 60) w"
proof
  fix w' assume "w' \<in> set ws"
  then obtain i where i: "i < length ws" "ws ! i = w'" by (auto simp: in_set_conv_nth)
  have len: "length ws = length xs" using s by (simp add: scaled_by_norm_def)
  define e :: real where "e = 76 / 2 ^ 24"
  define N where "N = l2_norm xs"
  define x where "x = valof (xs ! i)"
  define w where "w = valof (ws ! i)"
  define t where "t = x / N"
  have e: "0 \<le> e" "e \<le> 1 / 2" by (simp_all add: e_def)
  have ix: "i < length xs" using i(1) len by simp
  have fin: "is_finite (ws ! i)" and c: "close_to e w t"
    using s ix by (simp_all add: scaled_by_norm_def e_def w_def t_def x_def N_def)
  have d: "\<bar>w - t\<bar> \<le> e * \<bar>t\<bar>" using c by (simp add: close_to_def)
  have "e * \<bar>t\<bar> \<le> (1 / 2) * \<bar>t\<bar>" using e(2) by (intro mult_right_mono) simp_all
  then have wt: "\<bar>t\<bar> / 2 \<le> \<bar>w\<bar>" "\<bar>w\<bar> \<le> 2 * \<bar>t\<bar>" using d by linarith+
  have "sq_sum xs \<le> real (length xs) * 2 ^ 40" using sq_sum_small[OF band] .
  also have "\<dots> \<le> 16 * 2 ^ 40" using n16 by simp
  finally have "sq_sum xs \<le> (4 * 2 ^ 20)\<^sup>2" by simp
  then have Nhi: "N \<le> 4 * 2 ^ 20" unfolding N_def l2_norm_def by (intro real_le_lsqrt) simp_all
  have "0 \<le> N" by (simp add: N_def l2_norm_nonneg)
  moreover have "N \<noteq> 0" using nz by (simp add: N_def l2_norm_def)
  ultimately have N0: "0 < N" by simp
  have xN: "\<bar>x\<bar> \<le> N" using elem_le_norm[OF ix] by (simp add: x_def N_def)
  have "w = 0 \<or> (1 / 2 ^ 60 \<le> \<bar>w\<bar> \<and> \<bar>w\<bar> \<le> 2 ^ 60)"
  proof (cases "x = 0")
    case True
    then have "t = 0" by (simp add: t_def)
    then show ?thesis using d by simp
  next
    case False
    have "in_band (2 ^ 20) (xs ! i)" using band ix by simp
    then have xl: "1 / 2 ^ 20 \<le> \<bar>x\<bar>" using False by (simp add: in_band_def x_def)
    have at: "\<bar>t\<bar> = \<bar>x\<bar> / N" using N0 by (simp add: t_def)
    have t1: "\<bar>t\<bar> \<le> 1" unfolding at using xN N0 by simp
    have "1 / 2 ^ 42 * N \<le> 1 / 2 ^ 42 * (4 * 2 ^ 20)" using Nhi by (intro mult_left_mono) simp_all
    also have "\<dots> = 1 / 2 ^ 20" by simp
    finally have "1 / 2 ^ 42 * N \<le> \<bar>x\<bar>" using xl by linarith
    then have t2: "1 / 2 ^ 42 \<le> \<bar>t\<bar>" unfolding at using N0 by (simp add: pos_le_divide_eq)
    have "(1::real) / 2 ^ 60 \<le> 1 / 2 ^ 42 / 2" by simp
    also have "\<dots> \<le> \<bar>t\<bar> / 2" using t2 by (intro divide_right_mono) simp_all
    finally have "1 / 2 ^ 60 \<le> \<bar>w\<bar>" using wt(1) by linarith
    moreover have "\<bar>w\<bar> \<le> 2 ^ 60" using wt(2) t1 by simp
    ultimately show ?thesis by simp
  qed
  then show "in_band (2 ^ 60) w'" using fin i(2) by (simp add: in_band_def w_def)
qed

lemma normalized_twice:
  assumes s: "scaled_by_norm xs ws" and s': "scaled_by_norm ws ws'" and nz: "sq_sum xs \<noteq> 0"
  shows "length ws = length xs" and "length ws' = length xs"
    and "\<bar>l2_norm ws - 1\<bar> \<le> 1 / 10 ^ 5"
    and "\<forall>i < length xs. \<bar>valof (ws' ! i) - valof (ws ! i)\<bar> \<le> 1 / 10 ^ 5"
proof -
  show "length ws = length xs" "length ws' = length xs"
    using s s' by (simp_all add: scaled_by_norm_def)
  define e :: real where "e = 76 / 2 ^ 24"
  have "1 - e \<le> l2_norm ws" "l2_norm ws \<le> 1 + e"
    using unit_norm(1,2)[OF s nz] unfolding e_def by blast+
  then have "\<bar>l2_norm ws - 1\<bar> \<le> e" by linarith
  then have "\<bar>l2_norm ws - 1\<bar> \<le> 76 / 2 ^ 24" unfolding e_def .
  moreover have "(76::real) / 2 ^ 24 \<le> 1 / 10 ^ 5" by simp
  ultimately show "\<bar>l2_norm ws - 1\<bar> \<le> 1 / 10 ^ 5" by linarith
  have t: "(152::real) / 2 ^ 24 \<le> 1 / 10 ^ 5" by simp
  show "\<forall>i < length xs. \<bar>valof (ws' ! i) - valof (ws ! i)\<bar> \<le> 1 / 10 ^ 5"
  proof (intro allI impI)
    fix i assume "i < length xs"
    then have "\<bar>valof (ws' ! i) - valof (ws ! i)\<bar> \<le> 152 / 2 ^ 24"
      using idempotent_step[OF s s' nz] by simp
    then show "\<bar>valof (ws' ! i) - valof (ws ! i)\<bar> \<le> 1 / 10 ^ 5" using t by linarith
  qed
qed

lemma valof_small_ints:
  "valof (f32_of_int 0) = 0" "valof (f32_of_int 3) = 3" "valof (f32_of_int 4) = 4"
  "is_finite (f32_of_int 0)" "is_finite (f32_of_int 3)" "is_finite (f32_of_int 4)"
  by (simp_all add: f32_of_int_values valof_def mant_def expn_def powr_neg_numeral
      is_finite_def pos_zero_def)




section \<open>Degenerate lengths\<close>

text \<open>
  Claim C9.  For \<open>len \<le> 0\<close> every operation of both kernels returns without an error,
  whatever the buffers are (they may be empty, so no element can have been read): the
  distance is \<open>+0\<close>, the similarity is \<open>0 / (0 * 0)\<close>, a NaN, and \<open>normalize\<close>
  returns the memory unchanged.  No loop body runs: both loops return their initial
  state, whatever the body is.
\<close>

theorem degenerate_length:
  assumes "len \<le> 0"
  shows "euclideanDistance_c ieee h a b len = Inr (pos_zero, h) \<and>
         euclideanDistance_cpp ieee h a b len = Inr (pos_zero, h) \<and>
         cosineSimilarity_c ieee h a b len = Inr (quiet_nan, h) \<and>
         cosineSimilarity_cpp ieee h a b len = Inr (quiet_nan, h) \<and>
         is_nan quiet_nan \<and> \<not> is_finite quiet_nan \<and>
         normalize_c ieee h v len = Inr h \<and>
         normalize_cpp ieee h v len = Inr h \<and>
         for_loop 4 0 len body s = Inr s \<and> for_loop 1 0 len body s = Inr s"
  using assms
  by (simp add: for_loop_done euclideanDistance_c_def euclideanDistance_cpp_def
      cosineSimilarity_c_def cosineSimilarity_cpp_def cosine_sums_c_def cosine_sums_cpp_def
      cosine_denominator_def norm_c_def norm_cpp_def normalize_c_def normalize_cpp_def
      bind_def lane_sum_def f32x4_splat_def zero_arith nan_not_finite)

theorem degenerate_length_witness:
  "(0::int) \<le> 0 \<and>
   euclideanDistance_c ieee (\<lambda>p. []) 0 1 0 = Inr (pos_zero, \<lambda>p. []) \<and>
   cosineSimilarity_cpp ieee (\<lambda>p. []) 0 1 0 = Inr (quiet_nan, \<lambda>p. []) \<and>
   normalize_c ieee (\<lambda>p. []) 0 0 = Inr (\<lambda>p. []) \<and>
   for_loop 4 0 0 (\<lambda>i s. Inl OutOfBounds) () = Inr ()"
  using degenerate_length [of 0 "\<lambda>p. []" 0 1 0 "\<lambda>i s. Inl OutOfBounds" "()"]
  by simp

end
